theory Spec2Isabelle
  imports Main "HOL-Library.Sublist"
begin

section \<open>Text, whitespace and the string helpers of \<open>VBPLCrawler.parse\<close>\<close>

text \<open>
  A Python \<open>str\<close> is a sequence of Unicode code points. The marker keywords of the
  source lie outside ASCII, so a character is its code point and a text is a list of them.
\<close>

type_synonym uchar = nat
type_synonym ustring = "uchar list"

text \<open>The code points of a text written in ASCII.\<close>

definition ascii :: "string \<Rightarrow> ustring" where
  "ascii s = map of_char s"

text \<open>
  \<open>str.isspace\<close> of one character, which is also what \<open>\s\<close> matches in a \<open>str\<close> pattern
  and what \<open>str.strip()\<close> removes: the 29 code points of CPython's whitespace table.
\<close>

definition isspace :: "uchar \<Rightarrow> bool" where
  "isspace c \<longleftrightarrow>
     (9 \<le> c \<and> c \<le> 13) \<or> (28 \<le> c \<and> c \<le> 32) \<or> c = 133 \<or> c = 160 \<or> c = 5760 \<or>
     (8192 \<le> c \<and> c \<le> 8202) \<or> c = 8232 \<or> c = 8233 \<or> c = 8239 \<or> c = 8287 \<or> c = 12288"

definition lstrip :: "ustring \<Rightarrow> ustring" where
  "lstrip s = dropWhile isspace s"

definition rstrip :: "ustring \<Rightarrow> ustring" where
  "rstrip s = rev (dropWhile isspace (rev s))"

text \<open>\<open>s.strip()\<close>\<close>

definition strip :: "ustring \<Rightarrow> ustring" where
  "strip s = rstrip (lstrip s)"

text \<open>
  The character set of \<open>[#*_\[\]\(\)-]\<close>: hash, asterisk, underscore, the two square
  brackets, the two parentheses and the hyphen.
\<close>

definition decorative :: "uchar \<Rightarrow> bool" where
  "decorative c \<longleftrightarrow> c \<in> {35, 42, 95, 91, 93, 40, 41, 45}"

text \<open>\<open>re.sub(r'[#*_\[\]\(\)-]', '', s)\<close>: every decorative character is dropped.\<close>

definition sub_decorative :: "ustring \<Rightarrow> ustring" where
  "sub_decorative s = filter (\<lambda>c. \<not> decorative c) s"

text \<open>
  \<open>re.sub(r'\s+', ' ', s)\<close>: scanning from the left, every maximal run of whitespace is
  replaced by one space (U+0020).
\<close>

function sub_spaces :: "ustring \<Rightarrow> ustring" where
  "sub_spaces [] = []"
| "sub_spaces (c # cs) =
     (if isspace c then 32 # sub_spaces (dropWhile isspace cs) else c # sub_spaces cs)"
  by pat_completeness auto
termination
  by (relation "measure length") (auto simp: le_imp_less_Suc length_dropWhile_le)

text \<open>
  The title cleaning of lines 341, 359 and 400:
  \<open>re.sub(r'\s+', ' ', re.sub(r'[#*_\[\]\(\)-]', '', x)).strip()\<close>
\<close>

definition clean_title :: "ustring \<Rightarrow> ustring" where
  "clean_title x = strip (sub_spaces (sub_decorative x))"


text \<open>
  \<open>s.replace(old, new)\<close>: the occurrences of \<open>old\<close> are found from the left and do not
  overlap; every one of them is replaced (the source passes no count). An empty \<open>old\<close>
  matches before every character and at the end.
\<close>

function replace :: "ustring \<Rightarrow> ustring \<Rightarrow> ustring \<Rightarrow> ustring" where
  "replace old new s =
     (if old = [] then new @ concat (map (\<lambda>c. c # new) s)
      else if prefix old s then new @ replace old new (drop (length old) s)
      else (case s of [] \<Rightarrow> [] | c # cs \<Rightarrow> c # replace old new cs))"
  by pat_completeness auto
termination
  by (relation "measure (\<lambda>(old, new, s). length s)") (auto simp: prefix_def)

section \<open>The regular expressions\<close>

text \<open>
  The four patterns of lines 324 to 327 are built from single-character items, their
  repetitions, literals, groups, alternation, one lookahead and \<open>\Z\<close>. A character item
  is one of the classes below.
\<close>

datatype cclass =
    CAny                   \<comment> \<open>\<open>[\s\S]\<close>\<close>
  | CSpace                 \<comment> \<open>\<open>\s\<close>\<close>
  | CRange uchar uchar     \<comment> \<open>\<open>[0-9]\<close>\<close>
  | CSet ustring           \<comment> \<open>\<open>[MDCLXVI]\<close>\<close>
  | CChar uchar            \<comment> \<open>one literal character, as \<open>\n\<close>, \<open>\\\<close>, \<open>\.\<close>\<close>

text \<open>
  Under \<open>re.IGNORECASE\<close> a cased literal of a \<open>str\<close> pattern matches every character
  whose lowercase is the lowercase of the literal (or one of its listed equivalents: for
  \<open>i\<close> also the dotless \<open>i\<close>). The table gives these characters for the letters of the
  keywords of \<open>title_regex\<close>; any other character stands for itself.
\<close>

fun ignorecase_set :: "uchar \<Rightarrow> ustring" where
  "ignorecase_set c =
     (if c = 272 \<or> c = 273 then [272, 273]
      else if c = 105 \<or> c = 73 then [73, 105, 304, 305]
      else if c = 7873 \<or> c = 7872 then [7872, 7873]
      else if c = 117 \<or> c = 85 then [85, 117]
      else if c = 77 \<or> c = 109 then [77, 109]
      else if c = 7909 \<or> c = 7908 then [7908, 7909]
      else if c = 99 \<or> c = 67 then [67, 99]
      else [c])"

fun in_class :: "cclass \<Rightarrow> uchar \<Rightarrow> bool" where
  "in_class CAny c = True"
| "in_class CSpace c = isspace c"
| "in_class (CRange lo hi) c = (lo \<le> c \<and> c \<le> hi)"
| "in_class (CSet cs) c = (c \<in> set cs)"
| "in_class (CChar x) c = (c = x)"

datatype rx =
    Eps                        \<comment> \<open>the empty pattern\<close>
  | Lit ustring                \<comment> \<open>a literal word\<close>
  | LitI ustring               \<comment> \<open>a literal word under \<open>re.IGNORECASE\<close>\<close>
  | Rep cclass bool nat        \<comment> \<open>a repeated character item: greedy or lazy, with its least count\<close>
  | Seq rx rx
  | Alt rx rx
  | Grp nat rx                 \<comment> \<open>a capturing group and its number\<close>
  | Look rx                    \<comment> \<open>\<open>(?=...)\<close>\<close>
  | EndZ                       \<comment> \<open>\<open>\Z\<close>\<close>

fun seqs :: "rx list \<Rightarrow> rx" where
  "seqs [] = Eps"
| "seqs [r] = r"
| "seqs (r # rs) = Seq r (seqs rs)"

abbreviation many0 :: "cclass \<Rightarrow> rx" where "many0 c \<equiv> Rep c True 0"
abbreviation many1 :: "cclass \<Rightarrow> rx" where "many1 c \<equiv> Rep c True 1"
abbreviation few0 :: "cclass \<Rightarrow> rx" where "few0 c \<equiv> Rep c False 0"
abbreviation few1 :: "cclass \<Rightarrow> rx" where "few1 c \<equiv> Rep c False 1"

text \<open>
  A state of the matcher is the text not yet consumed and the groups captured so far.
  \<open>ms r st\<close> lists, in the order in which the backtracking matcher of \<open>re\<close> tries them,
  the states in which a match of \<open>r\<close> begun in \<open>st\<close> can end. The first element is the
  match that \<open>re\<close> reports; the later ones are what it falls back to when what follows
  fails.
\<close>

type_synonym captures = "nat \<rightharpoonup> ustring"
type_synonym mstate = "ustring \<times> captures"

text \<open>
  The text after the word \<open>w\<close>, when the text starts with it; the characters are
  compared with \<open>eq\<close>.
\<close>

fun after_word :: "(uchar \<Rightarrow> uchar \<Rightarrow> bool) \<Rightarrow> ustring \<Rightarrow> ustring \<Rightarrow> ustring option" where
  "after_word eq [] s = Some s"
| "after_word eq (w # ws) [] = None"
| "after_word eq (w # ws) (c # cs) = (if eq w c then after_word eq ws cs else None)"

definition ignorecase_eq :: "uchar \<Rightarrow> uchar \<Rightarrow> bool" where
  "ignorecase_eq p c \<longleftrightarrow> c \<in> set (ignorecase_set p)"

text \<open>
  The ends of a repeated character item, in the order of the attempts: a greedy item
  takes the longest run first and gives characters back one by one; a lazy item takes
  the least count first and extends by one character at a time. \<open>lo\<close> is the number of
  characters the item still has to take.
\<close>

fun rep_ends :: "cclass \<Rightarrow> bool \<Rightarrow> nat \<Rightarrow> ustring \<Rightarrow> ustring list" where
  "rep_ends c greedy lo [] = (if lo = 0 then [[]] else [])"
| "rep_ends c greedy lo (x # xs) =
     (if lo = 0 then
        (if in_class c x then
           (if greedy then rep_ends c greedy 0 xs @ [x # xs]
            else (x # xs) # rep_ends c greedy 0 xs)
         else [x # xs])
      else
        (if in_class c x then rep_ends c greedy (lo - 1) xs else []))"

fun ms :: "rx \<Rightarrow> mstate \<Rightarrow> mstate list" where
  "ms Eps st = [st]"
| "ms (Lit w) (s, cp) = (case after_word (=) w s of None \<Rightarrow> [] | Some s' \<Rightarrow> [(s', cp)])"
| "ms (LitI w) (s, cp) = (case after_word ignorecase_eq w s of None \<Rightarrow> [] | Some s' \<Rightarrow> [(s', cp)])"
| "ms (Rep c greedy lo) (s, cp) = map (\<lambda>s'. (s', cp)) (rep_ends c greedy lo s)"
| "ms (Seq a b) st = concat (map (ms b) (ms a st))"
| "ms (Alt a b) st = ms a st @ ms b st"
| "ms (Grp i r) (s, cp) =
     map (\<lambda>(s', cp'). (s', cp'(i \<mapsto> take (length s - length s') s))) (ms r (s, cp))"
| "ms (Look r) (s, cp) = (case ms r (s, cp) of [] \<Rightarrow> [] | (s', cp') # _ \<Rightarrow> [(s, cp')])"
| "ms EndZ (s, cp) = (if s = [] then [(s, cp)] else [])"

text \<open>
  One attempt at one position. Under \<open>must_advance\<close> (set by the scanner after an empty
  match) a match that consumes nothing is rejected and the matcher backtracks.
\<close>

definition match_at :: "rx \<Rightarrow> bool \<Rightarrow> ustring \<Rightarrow> mstate option" where
  "match_at r must_advance s =
     (case filter (\<lambda>(s', cp). \<not> (must_advance \<and> length s' = length s)) (ms r (s, Map.empty)) of
        [] \<Rightarrow> None
      | m # _ \<Rightarrow> Some m)"

text \<open>
  \<open>pattern.search\<close>: the leftmost position with a match. The result is the text from
  the start of the match on, and the state at its end; \<open>must_advance\<close> concerns the first
  position only.
\<close>

fun search :: "rx \<Rightarrow> bool \<Rightarrow> ustring \<Rightarrow> (ustring \<times> mstate) option" where
  "search r must_advance [] = map_option (Pair []) (match_at r must_advance [])"
| "search r must_advance (c # cs) =
     (case match_at r must_advance (c # cs) of
        Some m \<Rightarrow> Some (c # cs, m)
      | None \<Rightarrow> search r False cs)"

text \<open>What a match consumed (\<open>group(0)\<close>) and a numbered group (the empty string when unset).\<close>

definition group0 :: "ustring \<times> mstate \<Rightarrow> ustring" where
  "group0 m = take (length (fst m) - length (fst (snd m))) (fst m)"

definition group :: "ustring \<times> mstate \<Rightarrow> nat \<Rightarrow> ustring" where
  "group m i = (case snd (snd m) i of None \<Rightarrow> [] | Some g \<Rightarrow> g)"


text \<open>
  The scanner behind \<open>pattern.findall\<close>: search from the end of the last match; after an
  empty match the next one must advance. It stops when the search fails.
\<close>

function scan :: "rx \<Rightarrow> bool \<Rightarrow> ustring \<Rightarrow> (ustring \<times> mstate) list" where
  "scan r must_advance s =
     (case search r must_advance s of
        None \<Rightarrow> []
      | Some (st, s', cp') \<Rightarrow> (st, s', cp') # scan r (length s' = length st) s')"
  by pat_completeness auto
termination
proof -
  have after_le: "length s' \<le> length s" if "after_word eq w s = Some s'" for eq w s s'
    using that by (induction eq w s rule: after_word.induct) (auto split: if_splits)
  have rep_le: "length s' \<le> length s" if "s' \<in> set (rep_ends c g lo s)" for c g lo s s'
    using that by (induction c g lo s rule: rep_ends.induct) (auto split: if_splits)
  have ms_le: "length s' \<le> length s" if "(s', cp') \<in> set (ms r (s, cp))" for r s cp s' cp'
    using that
  proof (induction r arbitrary: s cp s' cp')
    case (Lit w)
    then show ?case using after_le by (auto split: option.splits)
  next
    case (LitI w)
    then show ?case using after_le by (auto split: option.splits)
  next
    case (Rep c g lo)
    then show ?case using rep_le by auto
  next
    case (Seq a b)
    then obtain s1 cp1
      where "(s1, cp1) \<in> set (ms a (s, cp))" "(s', cp') \<in> set (ms b (s1, cp1))"
      by auto
    with Seq.IH show ?case by (meson le_trans)
  next
    case (Look r)
    then show ?case by (auto split: list.splits)
  qed (auto split: if_splits)
  have at_le: "length s' \<le> length s \<and> (adv \<longrightarrow> length s' < length s)"
    if "match_at r adv s = Some (s', cp')" for r adv s s' cp'
  proof -
    let ?ok = "\<lambda>(s', cp). \<not> (adv \<and> length s' = length s)"
    from that obtain rest where "filter ?ok (ms r (s, Map.empty)) = (s', cp') # rest"
      by (auto simp: match_at_def split: list.splits)
    then have "(s', cp') \<in> set (filter ?ok (ms r (s, Map.empty)))" by simp
    then have "(s', cp') \<in> set (ms r (s, Map.empty))" "\<not> (adv \<and> length s' = length s)"
      by auto
    with ms_le show ?thesis by fastforce
  qed
  have search_le:
    "length s' \<le> length st \<and> length st \<le> length s \<and> (adv \<longrightarrow> length s' < length s)"
    if "search r adv s = Some (st, s', cp')" for r adv s st s' cp'
    using that
  proof (induction s arbitrary: adv)
    case Nil
    then have "match_at r adv [] = Some (s', cp')" "st = []" by auto
    with at_le [of r adv "[]" s' cp'] show ?case by simp
  next
    case (Cons c cs)
    show ?case
    proof (cases "match_at r adv (c # cs)")
      case None
      with Cons.prems have "search r False cs = Some (st, s', cp')" by simp
      with Cons.IH have "length s' \<le> length st \<and> length st \<le> length cs" by blast
      then show ?thesis by simp
    next
      case (Some m)
      with Cons.prems have "match_at r adv (c # cs) = Some (s', cp')" "st = c # cs" by auto
      with at_le [of r adv "c # cs" s' cp'] show ?thesis by simp
    qed
  qed
  show ?thesis
  proof (relation "measure (\<lambda>(r, adv, s). 2 * length s + (if adv then 0 else 1))", goal_cases)
    case 1
    show ?case by simp
  next
    case (2 r adv s m st e s' cp')
    then have "search r adv s = Some (st, s', cp')" by simp
    from search_le [OF this] show ?case by auto
  qed
qed

text \<open>
  \<open>pattern.findall(s)\<close> for a pattern with \<open>n > 1\<close> groups: one tuple of the \<open>n\<close> groups
  per match; for a pattern with one group: the text of that group per match.
\<close>

definition findall :: "rx \<Rightarrow> nat \<Rightarrow> ustring \<Rightarrow> ustring list list" where
  "findall r n s = map (\<lambda>m. map (group m) [1..<Suc n]) (scan r False s)"

definition findall1 :: "rx \<Rightarrow> ustring \<Rightarrow> ustring list" where
  "findall1 r s = map (\<lambda>m. group m 1) (scan r False s)"

text \<open>The keywords: \<open>Ch\<close>, u-horn, o-horn, \<open>ng\<close>; \<open>M\<close>, u-dot-below, \<open>c\<close>; D-stroke, \<open>i\<close>, e-circumflex-grave, \<open>u\<close>.\<close>

definition kw_chuong :: ustring where "kw_chuong = [67, 104, 432, 417, 110, 103]"
definition kw_muc :: ustring where "kw_muc = [77, 7909, 99]"
definition kw_dieu :: ustring where "kw_dieu = [272, 105, 7873, 117]"

definition roman :: cclass where "roman = CSet [77, 68, 67, 76, 88, 86, 73]"
definition digit :: cclass where "digit = CRange 48 57"
definition newline :: cclass where "newline = CChar 10"

text \<open>
  Line 324, compiled with \<open>re.IGNORECASE\<close>:
  \<^verbatim>\<open>([\s\S]+?)(?=(\n+\s*<Dieu>\s*[0-9]+)|(\n+\s*<Muc>\s*[0-9]+))\<close>
\<close>

definition title_regex :: rx where
  "title_regex =
     seqs [Grp 1 (few1 CAny),
           Look (Alt (Grp 2 (seqs [many1 newline, many0 CSpace, LitI kw_dieu, many0 CSpace, many1 digit]))
                     (Grp 3 (seqs [many1 newline, many0 CSpace, LitI kw_muc, many0 CSpace, many1 digit])))]"

text \<open>
  Line 325:
  \<^verbatim>\<open>\n*\s*(<Chuong>\s*([MDCLXVI]+))\s*([\s\S]*?)(?=(\n+\s*<Chuong>\s*([MDCLXVI]+))|\Z)\<close>
\<close>

definition chuong_mark :: rx where
  "chuong_mark = Grp 4 (seqs [many1 newline, many0 CSpace, Lit kw_chuong, many0 CSpace, Grp 5 (many1 roman)])"

definition chuong_regex :: rx where
  "chuong_regex =
     seqs [many0 newline, many0 CSpace,
           Grp 1 (seqs [Lit kw_chuong, many0 CSpace, Grp 2 (many1 roman)]),
           many0 CSpace,
           Grp 3 (few0 CAny),
           Look (Alt chuong_mark EndZ)]"

text \<open>
  Line 326:
  \<^verbatim>\<open>\n*\s*(<Muc>\s*[0-9]+)([\s\S]+?)(?=(\n+\s*<Muc>\s*[0-9]+)|(\n+\s*<Chuong>\s*([MDCLXVI]+))|\Z)\<close>
\<close>

definition muc_regex :: rx where
  "muc_regex =
     seqs [many0 newline, many0 CSpace,
           Grp 1 (seqs [Lit kw_muc, many0 CSpace, many1 digit]),
           Grp 2 (few1 CAny),
           Look (Alt (Grp 3 (seqs [many1 newline, many0 CSpace, Lit kw_muc, many0 CSpace, many1 digit]))
                (Alt chuong_mark EndZ))]"

text \<open>
  Line 327:
  \<^verbatim>\<open>\n*\s*(<Dieu>\s*[0-9]*\\*\.+[\s\S]+?)(?=\n+\s*<Dieu>\s*[0-9]+\\*\.|\Z)\<close>
\<close>

definition dieu_regex :: rx where
  "dieu_regex =
     seqs [many0 newline, many0 CSpace,
           Grp 1 (seqs [Lit kw_dieu, many0 CSpace, many0 digit, many0 (CChar 92), many1 (CChar 46),
                        few1 CAny]),
           Look (Alt (seqs [many1 newline, many0 CSpace, Lit kw_dieu, many0 CSpace, many1 digit,
                            many0 (CChar 92), Lit [46]])
                     EndZ)]"


section \<open>The segmentation cascade of \<open>VBPLCrawler.parse\<close>\<close>

datatype VBPLSection = CHAPTER | SECTION | ARTICLE | CLAUSE | POINT | SUBPOINT

text \<open>
  The dictionaries built by \<open>parse\<close>: \<open>chuong_data\<close> and \<open>muc_data\<close> have the keys
  \<open>type\<close>, \<open>id_text\<close>, \<open>title\<close> and \<open>children\<close>; \<open>dieu_data\<close> has \<open>type\<close> and \<open>content\<close>.
\<close>

datatype node =
    Block (node_type: VBPLSection) (id_text: ustring) (title: ustring) (children: "node list")
  | Leaf (node_type: VBPLSection) (content: ustring)

text \<open>
  Lines 339 to 345 (and again 357 to 363, 398 to 404): the title of a chapter or section
  body and the content left for the next level.
\<close>

definition split_title :: "ustring \<Rightarrow> ustring \<times> ustring" where
  "split_title body =
     (case search title_regex False body of
        Some title_match \<Rightarrow>
          (let title = clean_title (group0 title_match)
           in (title, strip (replace title [] body)))
      | None \<Rightarrow> ([], strip body))"

text \<open>Lines 368 to 371 (and 381 to 384, 409 to 412, 421 to 424).\<close>

definition dieu_data :: "ustring \<Rightarrow> node" where
  "dieu_data dieu = Leaf ARTICLE (strip (replace [42] [] dieu))"

text \<open>Lines 350 to 372 (and 391 to 413): one section match \<open>muc\<close>.\<close>

definition muc_data :: "ustring list \<Rightarrow> node" where
  "muc_data muc =
     (let (title, muc_content) = split_title (muc ! 1);
          dieu_matches = findall1 dieu_regex muc_content
      in Block SECTION (strip (muc ! 0)) title (map dieu_data dieu_matches))"

text \<open>Lines 332 to 386: one chapter match \<open>chuong\<close>.\<close>

definition chuong_data :: "ustring list \<Rightarrow> node" where
  "chuong_data chuong =
     (let (title, chuong_content) = split_title (chuong ! 2);
          muc_matches = findall muc_regex 5 chuong_content
      in if muc_matches \<noteq> []
         then Block CHAPTER (strip (chuong ! 0)) title (map muc_data muc_matches)
         else Block CHAPTER (strip (chuong ! 0)) title
                (map dieu_data (findall1 dieu_regex chuong_content)))"

text \<open>Lines 323 to 425: the list \<open>data\<close> built from the text \<open>content\<close>.\<close>

definition segment :: "ustring \<Rightarrow> node list" where
  "segment content_text =
     (let chuong_matches = findall chuong_regex 5 content_text
      in if chuong_matches \<noteq> [] then map chuong_data chuong_matches
         else (let muc_matches = findall muc_regex 5 content_text
               in if muc_matches \<noteq> [] then map muc_data muc_matches
                  else map dieu_data (findall1 dieu_regex content_text)))"


section \<open>\<open>VBPLCrawler.parse\<close> and its effects\<close>

text \<open>
  \<open>parse\<close> requests a page, parses it, writes a file, segments the content and extracts
  the metadata. What the network, the HTML libraries and the operating system answer is
  given by an environment:

  \<^item> \<open>web url\<close>: the text of the response to the GET request of \<open>url\<close>, or \<open>None\<close> when
    \<open>httpx.get\<close> or \<open>raise_for_status\<close> raises;
  \<^item> \<open>parse_html_error html\<close>: the exception that \<open>BeautifulSoup(html, 'html.parser')\<close>
    raises on the page, if it raises;
  \<^item> \<open>find_content html\<close>: \<open>None\<close> when \<open>soup.find('div', class_='toanvancontent')\<close> finds
    no element in the parsed page, otherwise the text that \<open>get_text(strip=False)\<close>
    returns for the element found;
  \<^item> \<open>extract_info html\<close>: what \<open>extract_info\<close> (lines 114 to 213) does on the parsed
    page: the exception it raises or the dictionary \<open>info\<close> it returns, and the requests
    and log entries it makes on the way (it requests the luocdo page; it writes no file);
  \<^item> \<open>open_error path\<close>: the error that \<open>open(path, 'w', encoding='utf-8')\<close> raises, if
    it raises (the path is a directory, it may not be written, ...);
  \<^item> \<open>write_error path\<close>: the error raised while the text is written or the file is
    closed, if any, with what has reached the file by then.
\<close>

datatype py_error = AttributeError | OSError | UnicodeEncodeError | OtherError string

datatype io_event = HttpGet ustring | LogError | OpenWrite string | Write string ustring

text \<open>
  The values of the dictionary \<open>info\<close>: texts, and under \<open>relationship\<close> a dictionary from
  a relation label to the list of its \<open>{"title", "id"}\<close> entries.
\<close>

datatype info_value =
    Text ustring
  | Relationship "(ustring \<times> (ustring \<times> ustring) list) list"

type_synonym info = "string \<rightharpoonup> info_value"

record env =
  web :: "ustring \<Rightarrow> ustring option"
  parse_html_error :: "ustring \<Rightarrow> py_error option"
  find_content :: "ustring \<Rightarrow> ustring option"
  extract_info :: "ustring \<Rightarrow> (py_error + info) \<times> io_event list"
  open_error :: "string \<Rightarrow> py_error option"
  write_error :: "string \<Rightarrow> (py_error \<times> ustring) option"

text \<open>The files: a map from path to content.\<close>

type_synonym files = "string \<rightharpoonup> ustring"

text \<open>Line 28: \<open>self.toanvan_url.format(id)\<close>.\<close>

definition toanvan_url :: "ustring \<Rightarrow> ustring" where
  "toanvan_url doc_id =
     ascii ''https://vbpl.vn/nganhangnhanuoc/Pages/vbpq-toanvan.aspx?ItemID='' @ doc_id"

text \<open>
  Lines 36 to 58: the text of the response; after any exception the error is logged and
  the empty text is returned.
\<close>

definition crawl_toanvan :: "env \<Rightarrow> ustring \<Rightarrow> ustring \<times> io_event list" where
  "crawl_toanvan e doc_id =
     (case web e (toanvan_url doc_id) of
        Some response_text \<Rightarrow> (response_text, [HttpGet (toanvan_url doc_id)])
      | None \<Rightarrow> ([], [HttpGet (toanvan_url doc_id), LogError]))"

text \<open>
  Lines 319 and 320: \<open>with open('content.txt', 'w', encoding='utf-8') as f: f.write(content)\<close>.
  Opening truncates the file. A text with a surrogate code point cannot be encoded as
  UTF-8: \<open>write\<close> raises before anything is written.
\<close>

definition encodable :: "ustring \<Rightarrow> bool" where
  "encodable s \<longleftrightarrow> list_all (\<lambda>c. c < 55296 \<or> 57343 < c) s"

definition write_text ::
  "env \<Rightarrow> string \<Rightarrow> ustring \<Rightarrow> files \<Rightarrow> (py_error + unit) \<times> files \<times> io_event list" where
  "write_text e path s fs =
     (case open_error e path of
        Some err \<Rightarrow> (Inl err, fs, [OpenWrite path])
      | None \<Rightarrow>
          if \<not> encodable s then (Inl UnicodeEncodeError, fs(path \<mapsto> []), [OpenWrite path])
          else (case write_error e path of
                  Some (err, written) \<Rightarrow>
                    (Inl err, fs(path \<mapsto> written), [OpenWrite path, Write path written])
                | None \<Rightarrow> (Inr (), fs(path \<mapsto> s), [OpenWrite path, Write path s])))"

text \<open>The value returned: the empty dictionary \<open>{}\<close>, or \<open>dict_result\<close>.\<close>

datatype parse_result =
    EmptyDict
  | DictResult (document_info: "(string \<times> info_value) list") (data: "node list")

text \<open>\<open>info.get(key, default)\<close>\<close>

definition get :: "info \<Rightarrow> string \<Rightarrow> info_value \<Rightarrow> info_value" where
  "get info key dflt = (case info key of None \<Rightarrow> dflt | Some v \<Rightarrow> v)"

text \<open>Lines 430 to 438: the seven keys of \<open>document_info\<close>, in their order.\<close>

definition document_info_of :: "info \<Rightarrow> (string \<times> info_value) list" where
  "document_info_of info =
     [(''document_id'', get info ''document_id'' (Text [])),
      (''document_title'', get info ''document_title'' (Text [])),
      (''document_date'', get info ''document_date'' (Text [])),
      (''document_status'', get info ''document_status'' (Text [])),
      (''effective_date'', get info ''effective_date'' (Text [])),
      (''expired_date'', get info ''expired_date'' (Text [])),
      (''relationship'', get info ''relationship'' (Relationship []))]"

text \<open>
  Lines 310 to 441, for the document \<open>id\<close>: the value returned or the exception raised, the files afterwards,
  and the requests, log entries and file operations in their order. Calling \<open>get_text\<close>
  on \<open>None\<close> raises \<open>AttributeError\<close> (line 315); an exception of the file write or of
  \<open>extract_info\<close> is not caught.
\<close>

definition parse ::
  "env \<Rightarrow> ustring \<Rightarrow> files \<Rightarrow> (py_error + parse_result) \<times> files \<times> io_event list" where
  "parse e doc_id fs =
     (let (html_content, crawled) = crawl_toanvan e doc_id
      in if html_content = [] then (Inr EmptyDict, fs, crawled)
         else (case parse_html_error e html_content of
                 Some err \<Rightarrow> (Inl err, fs, crawled)
               | None \<Rightarrow>
                   (case find_content e html_content of
                      None \<Rightarrow> (Inl AttributeError, fs, crawled)
                    | Some content_text \<Rightarrow>
                        if content_text = [] then (Inr EmptyDict, fs, crawled)
                        else (case write_text e ''content.txt'' content_text fs of
                                (Inl err, fs', written) \<Rightarrow> (Inl err, fs', crawled @ written)
                              | (Inr _, fs', written) \<Rightarrow>
                                  (let data = segment content_text
                                   in case extract_info e html_content of
                                        (Inl err, extracted) \<Rightarrow>
                                          (Inl err, fs', crawled @ written @ extracted)
                                      | (Inr info, extracted) \<Rightarrow>
                                          (Inr (DictResult (document_info_of info) data), fs',
                                           crawled @ written @ extracted))))))"

section \<open>Notions used by the properties\<close>

text \<open>
  A text is collapsed when each of its whitespace characters is a single space that no
  whitespace follows.
\<close>

fun collapsed :: "ustring \<Rightarrow> bool" where
  "collapsed [] = True"
| "collapsed (c # cs) =
     ((if isspace c then c = 32 \<and> (case cs of [] \<Rightarrow> True | d # _ \<Rightarrow> \<not> isspace d) else True) \<and>
      collapsed cs)"

text \<open>
  The body with the first occurrence of \<open>old\<close> removed and every later one left in place
  (\<open>s.replace(old, '', 1)\<close>).
\<close>

fun remove_first :: "ustring \<Rightarrow> ustring \<Rightarrow> ustring" where
  "remove_first old [] = []"
| "remove_first old (c # cs) =
     (if prefix old (c # cs) then drop (length old) (c # cs) else c # remove_first old cs)"

text \<open>
  A marker of a level in the grammar of the lookahead of \<open>title_regex\<close>: the keyword
  (in any case), optional whitespace, at least one digit; and whether a text holds one
  at any position.
\<close>

definition marker_at :: "ustring \<Rightarrow> ustring \<Rightarrow> bool" where
  "marker_at kw s \<longleftrightarrow> ms (seqs [LitI kw, many0 CSpace, many1 digit]) (s, Map.empty) \<noteq> []"

definition has_marker :: "ustring \<Rightarrow> ustring \<Rightarrow> bool" where
  "has_marker kw s \<longleftrightarrow> list_ex (marker_at kw) (suffixes s)"

text \<open>
  Where the text holds a chapter marker (the keyword, optional whitespace, at least one
  roman-numeral character), and where it holds a section marker (the keyword, optional
  whitespace, at least one digit) that at least one more character follows.
\<close>

definition chapter_marker_at :: "ustring \<Rightarrow> bool" where
  "chapter_marker_at s \<longleftrightarrow>
     ms (seqs [Lit kw_chuong, many0 CSpace, many1 roman]) (s, Map.empty) \<noteq> []"

definition has_chapter_marker :: "ustring \<Rightarrow> bool" where
  "has_chapter_marker s \<longleftrightarrow> list_ex chapter_marker_at (suffixes s)"

definition section_start_at :: "ustring \<Rightarrow> bool" where
  "section_start_at s \<longleftrightarrow>
     ms (seqs [Lit kw_muc, many0 CSpace, many1 digit, few1 CAny]) (s, Map.empty) \<noteq> []"

definition has_section_start :: "ustring \<Rightarrow> bool" where
  "has_section_start s \<longleftrightarrow> list_ex section_start_at (suffixes s)"

text \<open>The contents of the article nodes of a tree, at any depth.\<close>

fun article_contents :: "node \<Rightarrow> ustring list" where
  "article_contents (Leaf ty c) = (if ty = ARTICLE then [c] else [])"
| "article_contents (Block ty i t kids) = concat (map article_contents kids)"

text \<open>
  The chapter matches of a text as the scanner yields them, the body span of each
  (group 3, \<open>chuong[2]\<close>), and the text after the first chapter marker: what follows the
  first match's group 1, which starts at the first character of the match that is not
  whitespace.
\<close>

definition chuong_bodies :: "ustring \<Rightarrow> ustring list" where
  "chuong_bodies s = map (\<lambda>chuong. chuong ! 2) (findall chuong_regex 5 s)"

definition after_first_marker :: "ustring \<Rightarrow> ustring" where
  "after_first_marker s =
     (case scan chuong_regex False s of
        [] \<Rightarrow> []
      | m # _ \<Rightarrow> drop (length (group m 1)) (dropWhile isspace (fst m)))"

text \<open>
  The ends of the matches of a pattern at the start of a text, without the captured
  groups, and the group numbers of a pattern.
\<close>

definition ends :: "rx \<Rightarrow> ustring \<Rightarrow> ustring list" where
  "ends r s = map fst (ms r (s, Map.empty))"

fun groups_of :: "rx \<Rightarrow> nat set" where
  "groups_of (Seq a b) = groups_of a \<union> groups_of b"
| "groups_of (Alt a b) = groups_of a \<union> groups_of b"
| "groups_of (Grp i r) = insert i (groups_of r)"
| "groups_of (Look r) = groups_of r"
| "groups_of r = {}"

section \<open>Evaluation\<close>

declare scan.simps [simp del] replace.simps [simp del]

lemmas rx_defs = title_regex_def chuong_regex_def chuong_mark_def muc_regex_def dieu_regex_def
  kw_chuong_def kw_muc_def kw_dieu_def roman_def digit_def newline_def

lemma group_numbers: "[Suc 0..<6] = [Suc 0, 2, 3, 4, 5]"
  by (simp add: upt_rec)

lemmas eval_defs = group_numbers ascii_def rx_defs isspace_def match_at_def ignorecase_eq_def group_def group0_def
  scan.simps replace.simps findall_def findall1_def split_title_def clean_title_def
  strip_def lstrip_def rstrip_def sub_decorative_def decorative_def
  dieu_data_def muc_data_def chuong_data_def segment_def

section \<open>Title cleaning\<close>

lemma lstrip_fix: "s = [] \<or> \<not> isspace (hd s) \<Longrightarrow> lstrip s = s"
  by (cases s) (auto simp: lstrip_def)

lemma rstrip_fix: "s = [] \<or> \<not> isspace (last s) \<Longrightarrow> rstrip s = s"
  by (cases s rule: rev_cases) (auto simp: rstrip_def)

lemma rstrip_last: "rstrip s = [] \<or> \<not> isspace (last (rstrip s))"
  unfolding rstrip_def
  by (metis hd_dropWhile last_rev rev_is_Nil_conv rev_rev_ident)

lemma lstrip_hd: "lstrip s = [] \<or> \<not> isspace (hd (lstrip s))"
  unfolding lstrip_def by (metis hd_dropWhile)

lemma rstrip_take: "\<exists>n. rstrip s = take n s"
proof -
  obtain k where "dropWhile isspace (rev s) = drop k (rev s)"
    by (metis dropWhile_eq_drop)
  then have "rstrip s = take (length s - k) s"
    by (simp add: rstrip_def rev_drop)
  then show ?thesis ..
qed

lemma rstrip_hd: "s \<noteq> [] \<Longrightarrow> \<not> isspace (hd s) \<Longrightarrow> rstrip s \<noteq> [] \<and> hd (rstrip s) = hd s"
proof (induction s rule: rev_induct)
  case Nil then show ?case by simp
next
  case (snoc x xs)
  show ?case
  proof (cases "isspace x")
    case True
    then have r: "rstrip (xs @ [x]) = rstrip xs" by (simp add: rstrip_def)
    from snoc.prems True have "xs \<noteq> []" by (cases xs) auto
    with snoc r show ?thesis by auto
  next
    case False
    then have "rstrip (xs @ [x]) = xs @ [x]" by (simp add: rstrip_def)
    then show ?thesis by simp
  qed
qed

lemma strip_strip: "strip (strip s) = strip s"
proof -
  let ?t = "rstrip (lstrip s)"
  have "?t = [] \<or> \<not> isspace (hd ?t)"
  proof (cases "lstrip s = []")
    case True
    then show ?thesis by (simp add: rstrip_def)
  next
    case False
    with lstrip_hd [of s] have "\<not> isspace (hd (lstrip s))" by simp
    with False rstrip_hd [of "lstrip s"] show ?thesis by simp
  qed
  then have "lstrip ?t = ?t" by (rule lstrip_fix)
  moreover have "rstrip ?t = ?t" using rstrip_last [of "lstrip s"] by (rule rstrip_fix)
  ultimately show ?thesis by (simp add: strip_def)
qed

lemma collapsed_Cons [simp]:
  "collapsed (c # cs) \<longleftrightarrow>
     (isspace c \<longrightarrow> c = 32 \<and> (cs = [] \<or> \<not> isspace (hd cs))) \<and> collapsed cs"
  by (cases cs) auto

declare collapsed.simps(2) [simp del]

lemma sub_spaces_hd: "sub_spaces s = [] \<or> (isspace (hd (sub_spaces s)) \<longrightarrow> hd (sub_spaces s) = 32)"
  by (cases s) auto

lemma collapsed_sub_spaces: "collapsed (sub_spaces s)"
proof (induction s rule: sub_spaces.induct)
  case 1 show ?case by simp
next
  case (2 c cs)
  show ?case
  proof (cases "isspace c")
    case True
    let ?r = "dropWhile isspace cs"
    have "sub_spaces ?r = [] \<or> \<not> isspace (hd (sub_spaces ?r))"
    proof (cases ?r)
      case Nil
      then have "sub_spaces ?r = []" by (simp only: sub_spaces.simps)
      then show ?thesis ..
    next
      case (Cons d ds)
      then have "\<not> isspace d" by (metis hd_dropWhile list.sel(1) list.distinct(1))
      with Cons show ?thesis by simp
    qed
    with True 2 show ?thesis by simp
  next
    case False
    with 2 show ?thesis by simp
  qed
qed

lemma collapsed_fix: "collapsed s \<Longrightarrow> sub_spaces s = s"
proof (induction s rule: sub_spaces.induct)
  case 1 show ?case by simp
next
  case (2 c cs)
  show ?case
  proof (cases "isspace c")
    case True
    with 2 have "cs = [] \<or> \<not> isspace (hd cs)" "c = 32" "collapsed cs" by auto
    then have "dropWhile isspace cs = cs" by (cases cs) auto
    with 2 True show ?thesis by simp
  next
    case False
    with 2 show ?thesis by simp
  qed
qed

lemma collapsed_drop: "collapsed s \<Longrightarrow> collapsed (drop n s)"
proof (induction s arbitrary: n)
  case Nil show ?case by simp
next
  case (Cons c cs)
  then show ?case by (cases n) auto
qed

lemma collapsed_take: "collapsed s \<Longrightarrow> collapsed (take n s)"
proof (induction s arbitrary: n)
  case Nil show ?case by simp
next
  case (Cons c cs)
  show ?case
  proof (cases n)
    case 0 then show ?thesis by simp
  next
    case (Suc m)
    have "take m cs = [] \<or> hd (take m cs) = hd cs" by (cases cs; cases m) auto
    with Cons Suc show ?thesis by auto
  qed
qed

lemma collapsed_strip: "collapsed s \<Longrightarrow> collapsed (strip s)"
proof -
  assume c: "collapsed s"
  obtain k where "lstrip s = drop k s" unfolding lstrip_def by (metis dropWhile_eq_drop)
  moreover obtain n where "rstrip (lstrip s) = take n (lstrip s)" using rstrip_take by blast
  ultimately show ?thesis using c by (simp add: strip_def collapsed_take collapsed_drop)
qed

lemma set_strip: "set (strip s) \<subseteq> set s"
proof -
  obtain n where "rstrip (lstrip s) = take n (lstrip s)" using rstrip_take by blast
  then have "set (strip s) \<subseteq> set (lstrip s)" by (simp add: strip_def set_take_subset)
  also have "\<dots> \<subseteq> set s" by (simp add: lstrip_def set_dropWhileD subsetI)
  finally show ?thesis .
qed

lemma set_sub_spaces: "set (sub_spaces s) \<subseteq> insert 32 (set s)"
proof (induction s rule: sub_spaces.induct)
  case 1 show ?case by simp
next
  case (2 c cs)
  have "set (dropWhile isspace cs) \<subseteq> set cs" by (simp add: set_dropWhileD subsetI)
  with 2 show ?case by (cases "isspace c") auto
qed

lemma sub_decorative_fix: "\<forall>c \<in> set s. \<not> decorative c \<Longrightarrow> sub_decorative s = s"
  by (simp add: sub_decorative_def)

text \<open>
  C9: the title cleaning (dropping the decorative characters, collapsing every run of
  whitespace to one space, trimming) is idempotent: cleaning a text twice gives what
  cleaning it once gives.
\<close>

theorem clean_title_idempotent: "clean_title (clean_title x) = clean_title x"
proof -
  let ?y = "clean_title x"
  have "\<not> decorative 32" by (simp add: decorative_def)
  moreover have "\<forall>c \<in> set (sub_decorative x). \<not> decorative c" by (simp add: sub_decorative_def)
  ultimately have "\<forall>c \<in> set ?y. \<not> decorative c"
    unfolding clean_title_def using set_strip set_sub_spaces by blast
  then have 1: "sub_decorative ?y = ?y" by (rule sub_decorative_fix)
  have "collapsed ?y" unfolding clean_title_def by (intro collapsed_strip collapsed_sub_spaces)
  then have 2: "sub_spaces ?y = ?y" by (rule collapsed_fix)
  have 3: "strip ?y = ?y" unfolding clean_title_def by (rule strip_strip)
  show ?thesis by (subst (1) clean_title_def) (simp only: 1 2 3)
qed

section \<open>The cascade on given texts\<close>

lemma segment_on_chapter_text:
  "segment (kw_chuong @ ascii '' I'' @ 10 # ascii ''Quy '' @ 273 # 7883 # ascii ''nh chung'' @ 10 # kw_dieu @ ascii '' 1. N'' @ 7897 # ascii ''i dung m'' @ 7897 # ascii ''t.'' @ 10 # kw_dieu @ ascii '' 2. N'' @ 7897 # ascii ''i dung hai.'') =
     [Block CHAPTER (kw_chuong @ ascii '' I'') (ascii ''Quy '' @ 273 # 7883 # ascii ''nh chung'')
        [Leaf ARTICLE (kw_dieu @ ascii '' 1. N'' @ 7897 # ascii ''i dung m'' @ 7897 # ascii ''t.''), Leaf ARTICLE (kw_dieu @ ascii '' 2. N'' @ 7897 # ascii ''i dung hai.'')]]"
  by (simp add: eval_defs)

text \<open>
  C7: on the text of scenario A (a chapter line, a title line and two article lines) the
  cascade gives exactly one chapter node with \<open>id_text\<close> "Chuong I" and title
  "Quy dinh chung" (written here with their code points), whose children are exactly the
  two article nodes, with the contents of the two article lines, in that order.
\<close>

theorem scenario_A:
  "segment (kw_chuong @ ascii '' I'' @ 10 # ascii ''Quy '' @ 273 # 7883 # ascii ''nh chung'' @ 10 # kw_dieu @ ascii '' 1. N'' @ 7897 # ascii ''i dung m'' @ 7897 # ascii ''t.'' @ 10 # kw_dieu @ ascii '' 2. N'' @ 7897 # ascii ''i dung hai.'') =
     [Block CHAPTER (kw_chuong @ ascii '' I'') (ascii ''Quy '' @ 273 # 7883 # ascii ''nh chung'')
        [Leaf ARTICLE (kw_dieu @ ascii '' 1. N'' @ 7897 # ascii ''i dung m'' @ 7897 # ascii ''t.''), Leaf ARTICLE (kw_dieu @ ascii '' 2. N'' @ 7897 # ascii ''i dung hai.'')]]"
  by (rule segment_on_chapter_text)

section \<open>The effects of \<open>parse\<close>\<close>

text \<open>
  C3: when the page has no \<open>toanvancontent\<close> container, \<open>parse\<close> is claimed to return
  an empty result without raising. On the code, a non-empty page without the container
  (here the response \<open><html></html>\<close>) makes \<open>soup.find\<close> return \<open>None\<close>, and line 315
  raises \<open>AttributeError\<close>, whatever the rest of the environment is.
\<close>

theorem parse_without_container:
  "parse \<lparr>web = (\<lambda>url. Some (ascii ''<html></html>'')), parse_html_error = (\<lambda>html. None), find_content = (\<lambda>html. None),
          extract_info = x, open_error = oe, write_error = we\<rparr> doc_id fs =
     (Inl AttributeError, fs, [HttpGet (toanvan_url doc_id)])"
  by (simp add: parse_def crawl_toanvan_def ascii_def)

lemma parse_on_article_page:
  "parse \<lparr>web = (\<lambda>url. Some (ascii ''<html></html>'')), parse_html_error = (\<lambda>html. None), find_content = (\<lambda>html. Some (kw_dieu @ ascii '' 5. Something.'')),
          extract_info = (\<lambda>html. (Inr Map.empty, [])),
          open_error = (\<lambda>path. None), write_error = (\<lambda>path. None)\<rparr> (ascii ''1'') fs =
     (Inr (DictResult (document_info_of Map.empty) (segment (kw_dieu @ ascii '' 5. Something.''))),
      fs(''content.txt'' \<mapsto> (kw_dieu @ ascii '' 5. Something.'')),
      [HttpGet (toanvan_url (ascii ''1'')), OpenWrite ''content.txt'',
       Write ''content.txt'' (kw_dieu @ ascii '' 5. Something.'')])"
  by (simp add: parse_def crawl_toanvan_def write_text_def encodable_def ascii_def kw_dieu_def)

text \<open>
  The same page when \<open>content.txt\<close> cannot be opened for writing (it is a directory,
  say), and when \<open>extract_info\<close> raises: the exception leaves \<open>parse\<close>.
\<close>

lemma parse_when_open_fails:
  "parse \<lparr>web = (\<lambda>url. Some (ascii ''<html></html>'')), parse_html_error = (\<lambda>html. None), find_content = (\<lambda>html. Some (kw_dieu @ ascii '' 5. Something.'')),
          extract_info = x, open_error = (\<lambda>path. Some OSError), write_error = we\<rparr> (ascii ''1'') fs =
     (Inl OSError, fs, [HttpGet (toanvan_url (ascii ''1'')), OpenWrite ''content.txt''])"
  by (simp add: parse_def crawl_toanvan_def write_text_def ascii_def kw_dieu_def)

lemma parse_when_extract_info_raises:
  "parse \<lparr>web = (\<lambda>url. Some (ascii ''<html></html>'')), parse_html_error = (\<lambda>html. None), find_content = (\<lambda>html. Some (kw_dieu @ ascii '' 5. Something.'')),
          extract_info = (\<lambda>html. (Inl (OtherError ''UnboundLocalError''), [HttpGet (ascii ''luocdo'')])),
          open_error = (\<lambda>path. None), write_error = (\<lambda>path. None)\<rparr> (ascii ''1'') fs =
     (Inl (OtherError ''UnboundLocalError''), fs(''content.txt'' \<mapsto> (kw_dieu @ ascii '' 5. Something.'')),
      [HttpGet (toanvan_url (ascii ''1'')), OpenWrite ''content.txt'',
       Write ''content.txt'' (kw_dieu @ ascii '' 5. Something.''), HttpGet (ascii ''luocdo'')])"
  by (simp add: parse_def crawl_toanvan_def write_text_def encodable_def ascii_def kw_dieu_def)

text \<open>
  C6, as stated, fails: a \<open>parse\<close> invocation on a page with a non-empty content
  requests the page and writes the file \<open>content.txt\<close>, so that it performs I/O and the
  files after it differ from the files before it.
\<close>

theorem parse_writes_file:
  "fst (snd (parse \<lparr>web = (\<lambda>url. Some (ascii ''<html></html>'')), parse_html_error = (\<lambda>html. None),
                     find_content = (\<lambda>html. Some (kw_dieu @ ascii '' 5. Something.'')),
                     extract_info = (\<lambda>html. (Inr Map.empty, [])),
                     open_error = (\<lambda>path. None), write_error = (\<lambda>path. None)\<rparr> (ascii ''1'') Map.empty))
     ''content.txt'' = Some (kw_dieu @ ascii '' 5. Something.'') \<and>
   Map.empty ''content.txt'' = (None :: ustring option) \<and>
   snd (snd (parse \<lparr>web = (\<lambda>url. Some (ascii ''<html></html>'')), parse_html_error = (\<lambda>html. None),
                     find_content = (\<lambda>html. Some (kw_dieu @ ascii '' 5. Something.'')),
                     extract_info = (\<lambda>html. (Inr Map.empty, [])),
                     open_error = (\<lambda>path. None), write_error = (\<lambda>path. None)\<rparr> (ascii ''1'') Map.empty)) =
     [HttpGet (toanvan_url (ascii ''1'')), OpenWrite ''content.txt'',
      Write ''content.txt'' (kw_dieu @ ascii '' 5. Something.'')]"
  unfolding parse_on_article_page by simp

text \<open>
  C6, amended: a \<open>parse\<close> invocation performs I/O: it always requests the page and,
  whenever it returns a result dictionary, it has before that overwritten the file
  \<open>content.txt\<close>, shared between invocations, with the content (when the file cannot be
  written, it raises instead). It changes no other file, and the tree it returns is the
  cascade's tree of the content, which depends on nothing but the content text.
\<close>

theorem parse_effects:
  "(case parse e doc_id fs of
      (outcome, fs', events) \<Rightarrow>
        (\<forall>path. path \<noteq> ''content.txt'' \<longrightarrow> fs' path = fs path) \<and>
        HttpGet (toanvan_url doc_id) \<in> set events \<and>
        (\<forall>c. fst (crawl_toanvan e doc_id) \<noteq> [] \<and>
             parse_html_error e (fst (crawl_toanvan e doc_id)) = None \<and>
             find_content e (fst (crawl_toanvan e doc_id)) = Some c \<and> c \<noteq> [] \<longrightarrow>
             OpenWrite ''content.txt'' \<in> set events) \<and>
        (\<forall>d nodes. outcome = Inr (DictResult d nodes) \<longrightarrow>
           (\<exists>c. find_content e (fst (crawl_toanvan e doc_id)) = Some c \<and> c \<noteq> [] \<and>
                nodes = segment c \<and>
                fs' ''content.txt'' = Some c \<and>
                Write ''content.txt'' c \<in> set events)))"
  by (auto simp: parse_def crawl_toanvan_def write_text_def Let_def
      split: option.splits prod.splits sum.splits if_splits)

theorem parse_effects_witness:
  "fst (snd (parse \<lparr>web = (\<lambda>url. Some (ascii ''<html></html>'')), parse_html_error = (\<lambda>html. None),
                     find_content = (\<lambda>html. Some (kw_dieu @ ascii '' 5. Something.'')),
                     extract_info = (\<lambda>html. (Inr Map.empty, [])),
                     open_error = (\<lambda>path. None), write_error = (\<lambda>path. None)\<rparr> (ascii ''1'')
                   [''notes.txt'' \<mapsto> (ascii ''a'')])) ''notes.txt'' = Some (ascii ''a'') \<and>
   fst (snd (parse \<lparr>web = (\<lambda>url. Some (ascii ''<html></html>'')), parse_html_error = (\<lambda>html. None),
                     find_content = (\<lambda>html. Some (kw_dieu @ ascii '' 5. Something.'')),
                     extract_info = (\<lambda>html. (Inr Map.empty, [])),
                     open_error = (\<lambda>path. None), write_error = (\<lambda>path. None)\<rparr> (ascii ''1'')
                   [''notes.txt'' \<mapsto> (ascii ''a'')])) ''content.txt'' = Some (kw_dieu @ ascii '' 5. Something.'') \<and>
   fst (parse \<lparr>web = (\<lambda>url. Some (ascii ''<html></html>'')), parse_html_error = (\<lambda>html. None),
                find_content = (\<lambda>html. Some (kw_dieu @ ascii '' 5. Something.'')),
                extract_info = (\<lambda>html. (Inr Map.empty, [])),
                open_error = (\<lambda>path. None), write_error = (\<lambda>path. None)\<rparr> (ascii ''1'')
              [''notes.txt'' \<mapsto> (ascii ''a'')]) =
     Inr (DictResult (document_info_of Map.empty) (segment (kw_dieu @ ascii '' 5. Something.'')))"
  using parse_effects [where e = "\<lparr>web = (\<lambda>url. Some (ascii ''<html></html>'')), parse_html_error = (\<lambda>html. None),
                find_content = (\<lambda>html. Some (kw_dieu @ ascii '' 5. Something.'')),
                extract_info = (\<lambda>html. (Inr Map.empty, [])),
                open_error = (\<lambda>path. None), write_error = (\<lambda>path. None)\<rparr>"
              and doc_id = "(ascii ''1'')" and fs = "[''notes.txt'' \<mapsto> (ascii ''a'')]"]
  unfolding parse_on_article_page by simp

section \<open>Title and remainder\<close>

lemma search_title_recurring:
  "search title_regex False (ascii ''A'' @ 10 # kw_dieu @ ascii '' 1. A'') = Some ((ascii ''A'' @ 10 # kw_dieu @ ascii '' 1. A''), (10 # kw_dieu @ ascii '' 1. A''), [1 \<mapsto> (ascii ''A''), 2 \<mapsto> (10 # kw_dieu @ ascii '' 1'')])"
  by (simp add: eval_defs)

lemma split_title_recurring: "split_title (ascii ''A'' @ 10 # kw_dieu @ ascii '' 1. A'') = ((ascii ''A''), (kw_dieu @ ascii '' 1.''))"
  by (simp add: eval_defs)

text \<open>
  C1, as stated, fails: in the body "A", newline, "Dieu 1. A" the title splitter finds
  the title "A", which occurs twice. The remainder passed down is "Dieu 1." with both
  occurrences removed; it is neither the body with the first occurrence removed nor that
  text trimmed, which keep the second "A".
\<close>

theorem remainder_recurring_title:
  "search title_regex False (ascii ''A'' @ 10 # kw_dieu @ ascii '' 1. A'') \<noteq> None \<and>
   split_title (ascii ''A'' @ 10 # kw_dieu @ ascii '' 1. A'') = ((ascii ''A''), (kw_dieu @ ascii '' 1.'')) \<and>
   remove_first (ascii ''A'') (ascii ''A'' @ 10 # kw_dieu @ ascii '' 1. A'') = (10 # kw_dieu @ ascii '' 1. A'') \<and>
   strip (remove_first (ascii ''A'') (ascii ''A'' @ 10 # kw_dieu @ ascii '' 1. A'')) = (kw_dieu @ ascii '' 1. A'') \<and>
   snd (split_title (ascii ''A'' @ 10 # kw_dieu @ ascii '' 1. A'')) \<noteq> remove_first (fst (split_title (ascii ''A'' @ 10 # kw_dieu @ ascii '' 1. A''))) (ascii ''A'' @ 10 # kw_dieu @ ascii '' 1. A'') \<and>
   snd (split_title (ascii ''A'' @ 10 # kw_dieu @ ascii '' 1. A'')) \<noteq> strip (remove_first (fst (split_title (ascii ''A'' @ 10 # kw_dieu @ ascii '' 1. A''))) (ascii ''A'' @ 10 # kw_dieu @ ascii '' 1. A''))"
proof -
  have "search title_regex False (ascii ''A'' @ 10 # kw_dieu @ ascii '' 1. A'') \<noteq> None"
    unfolding search_title_recurring by simp
  moreover have "remove_first (ascii ''A'') (ascii ''A'' @ 10 # kw_dieu @ ascii '' 1. A'') = (10 # kw_dieu @ ascii '' 1. A'')"
    by (simp add: ascii_def kw_dieu_def)
  moreover have "strip (10 # kw_dieu @ ascii '' 1. A'') = (kw_dieu @ ascii '' 1. A'')"
    by (simp add: strip_def lstrip_def rstrip_def isspace_def ascii_def kw_dieu_def)
  ultimately show ?thesis
    unfolding split_title_recurring by (simp add: ascii_def kw_dieu_def)
qed

text \<open>
  What \<open>replace old [] s\<close> removes, for a non-empty \<open>old\<close>: nothing when \<open>old\<close> does not
  occur in \<open>s\<close>; and otherwise the first occurrence, and in the same way the occurrences
  in what follows it.
\<close>

lemma replace_no_occurrence: "old \<noteq> [] \<Longrightarrow> \<not> sublist old s \<Longrightarrow> replace old [] s = s"
proof (induction s)
  case Nil
  then show ?case by (simp add: replace.simps)
next
  case (Cons c cs)
  from Cons.prems(2) have "\<not> prefix old (c # cs)" "\<not> sublist old cs"
    by (simp_all add: sublist_Cons_right)
  with Cons show ?case by (simp add: replace.simps [of old "[]" "c # cs"])
qed

lemma replace_first_occurrence:
  assumes "old \<noteq> []" and "\<not> sublist old (p @ butlast old)"
  shows "replace old [] (p @ old @ r) = p @ replace old [] r"
  using assms(2)
proof (induction p)
  case Nil
  from assms(1) show ?case by (simp add: replace.simps [of old "[]" "old @ r"])
next
  case (Cons c p)
  from Cons.prems have np: "\<not> prefix old (c # p @ butlast old)"
    and ns: "\<not> sublist old (p @ butlast old)"
    by (simp_all add: sublist_Cons_right)
  have "\<not> prefix old (c # p @ old @ r)"
  proof
    assume pre: "prefix old (c # p @ old @ r)"
    have "c # p @ old @ r = (c # p @ butlast old) @ (last old # r)"
      using assms(1) by (simp add: append_butlast_last_id [symmetric] del: append_butlast_last_id)
    moreover have "length old \<le> length (c # p @ butlast old)" by simp
    ultimately have "prefix old (c # p @ butlast old)"
      using pre by (metis prefix_length_prefix prefixI)
    with np show False ..
  qed
  with assms(1) have "replace old [] (c # p @ old @ r) = c # replace old [] (p @ old @ r)"
    by (simp add: replace.simps [of old "[]" "c # p @ old @ r"])
  with Cons.IH [OF ns] show ?case by simp
qed

lemma replace_empty: "replace [] [] s = s"
  by (induction s) (simp_all add: replace.simps [of "[]"])

text \<open>
  C1, amended: for every chapter or section body in which the title splitter finds a
  title candidate, the title is the cleaned candidate and the remainder passed down is
  the body with every occurrence of the cleaned title removed, trimmed of leading and
  trailing whitespace. Every occurrence: an empty title, or one that does not occur in
  the body, removes nothing; otherwise the first occurrence is removed and the text
  after it is treated in the same way, so that later occurrences are removed too.
\<close>

theorem remainder_all_occurrences:
  assumes "search title_regex False body = Some title_match"
  shows "(let t = clean_title (group0 title_match) in
           split_title body = (t, strip (replace t [] body)) \<and>
           (t = [] \<or> \<not> sublist t body \<longrightarrow> replace t [] body = body) \<and>
           (\<forall>p r. t \<noteq> [] \<and> body = p @ t @ r \<and> \<not> sublist t (p @ butlast t) \<longrightarrow>
              replace t [] body = p @ replace t [] r))"
proof -
  let ?t = "clean_title (group0 title_match)"
  from assms have "split_title body = (?t, strip (replace ?t [] body))"
    by (simp add: split_title_def Let_def)
  moreover have "?t = [] \<or> \<not> sublist ?t body \<longrightarrow> replace ?t [] body = body"
    using replace_empty [of body] replace_no_occurrence [of ?t body]
    by (cases "?t = []") auto
  moreover have "\<forall>p r. ?t \<noteq> [] \<and> body = p @ ?t @ r \<and> \<not> sublist ?t (p @ butlast ?t) \<longrightarrow>
      replace ?t [] body = p @ replace ?t [] r"
    using replace_first_occurrence [of ?t] by auto
  ultimately show ?thesis unfolding Let_def by blast
qed

theorem remainder_all_occurrences_witness:
  "search title_regex False (ascii ''A'' @ 10 # kw_dieu @ ascii '' 1. A'') =
     Some ((ascii ''A'' @ 10 # kw_dieu @ ascii '' 1. A''), (10 # kw_dieu @ ascii '' 1. A''), [1 \<mapsto> (ascii ''A''), 2 \<mapsto> (10 # kw_dieu @ ascii '' 1'')]) \<and>
   split_title (ascii ''A'' @ 10 # kw_dieu @ ascii '' 1. A'') = ((ascii ''A''), (kw_dieu @ ascii '' 1.'')) \<and>
   replace (ascii ''A'') [] (ascii ''A'' @ 10 # kw_dieu @ ascii '' 1. A'') = (10 # kw_dieu @ ascii '' 1. '')"
proof -
  let ?m = "((ascii ''A'' @ 10 # kw_dieu @ ascii '' 1. A''), (10 # kw_dieu @ ascii '' 1. A''), [1 \<mapsto> (ascii ''A''), 2 \<mapsto> (10 # kw_dieu @ ascii '' 1'')])"
  have t: "clean_title (group0 ?m) = (ascii ''A'')"
    by (simp add: group0_def clean_title_def sub_decorative_def decorative_def isspace_def
        strip_def lstrip_def rstrip_def ascii_def kw_dieu_def)
  have r: "replace (ascii ''A'') [] (10 # kw_dieu @ ascii '' 1. A'') = (10 # kw_dieu @ ascii '' 1. '')"
    by (simp add: replace.simps ascii_def kw_dieu_def)
  have s: "strip (10 # kw_dieu @ ascii '' 1. '') = (kw_dieu @ ascii '' 1.'')"
    by (simp add: strip_def lstrip_def rstrip_def isspace_def ascii_def kw_dieu_def)
  have a: "(ascii ''A'') \<noteq> [] \<and> (ascii ''A'' @ 10 # kw_dieu @ ascii '' 1. A'') = [] @ (ascii ''A'') @ (10 # kw_dieu @ ascii '' 1. A'') \<and> \<not> sublist (ascii ''A'') ([] @ butlast (ascii ''A''))"
    by (simp add: ascii_def)
  from remainder_all_occurrences [OF search_title_recurring]
  have "split_title (ascii ''A'' @ 10 # kw_dieu @ ascii '' 1. A'') = ((ascii ''A''), strip (replace (ascii ''A'') [] (ascii ''A'' @ 10 # kw_dieu @ ascii '' 1. A'')))"
    and "\<forall>p r. (ascii ''A'') \<noteq> [] \<and> (ascii ''A'' @ 10 # kw_dieu @ ascii '' 1. A'') = p @ (ascii ''A'') @ r \<and> \<not> sublist (ascii ''A'') (p @ butlast (ascii ''A'')) \<longrightarrow>
           replace (ascii ''A'') [] (ascii ''A'' @ 10 # kw_dieu @ ascii '' 1. A'') = p @ replace (ascii ''A'') [] r"
    unfolding Let_def t by blast+
  with a have "split_title (ascii ''A'' @ 10 # kw_dieu @ ascii '' 1. A'') = ((ascii ''A''), strip (replace (ascii ''A'') [] (ascii ''A'' @ 10 # kw_dieu @ ascii '' 1. A'')))"
    and "replace (ascii ''A'') [] (ascii ''A'' @ 10 # kw_dieu @ ascii '' 1. A'') = [] @ replace (ascii ''A'') [] (10 # kw_dieu @ ascii '' 1. A'')"
    by blast+
  then show ?thesis using search_title_recurring by (simp add: r s)
qed

section \<open>The matcher\<close>

lemma after_word_split: "after_word eq w s = Some s' \<Longrightarrow> \<exists>u. s = u @ s' \<and> length u = length w"
proof (induction eq w s rule: after_word.induct)
  case (3 eq w ws c cs)
  then obtain u where "cs = u @ s'" "length u = length ws" by (auto split: if_splits)
  then have "c # cs = (c # u) @ s' \<and> length (c # u) = length (w # ws)" by simp
  then show ?case by blast
qed auto

lemma after_word_eq: "after_word (=) w s = Some s' \<longleftrightarrow> s = w @ s'"
  by (induction "(=) :: uchar \<Rightarrow> uchar \<Rightarrow> bool" w s rule: after_word.induct) auto

lemma rep_ends_split:
  "s' \<in> set (rep_ends c g lo s) \<Longrightarrow> \<exists>u. s = u @ s' \<and> list_all (in_class c) u \<and> lo \<le> length u"
proof (induction c g lo s rule: rep_ends.induct)
  case (1 c g lo)
  then show ?case by (auto split: if_splits)
next
  case (2 c g lo x xs)
  show ?case
  proof (cases "s' = x # xs")
    case True
    with 2 have "lo = 0" by (auto split: if_splits dest!: 2(1,2,3))
    with True show ?thesis by simp
  next
    case False
    with "2.prems" have x: "in_class c x" and s': "s' \<in> set (rep_ends c g (lo - 1) xs)"
      by (auto split: if_splits)
    have "\<exists>u. xs = u @ s' \<and> list_all (in_class c) u \<and> lo - 1 \<le> length u"
    proof (cases "lo = 0")
      case True
      with x s' "2.IH"(1,2) show ?thesis by (cases g) auto
    next
      case False
      with x s' "2.IH"(3) show ?thesis by auto
    qed
    then obtain u where "xs = u @ s'" "list_all (in_class c) u" "lo - 1 \<le> length u" by blast
    with x have "x # xs = (x # u) @ s' \<and> list_all (in_class c) (x # u) \<and> lo \<le> length (x # u)"
      by auto
    then show ?thesis by blast
  qed
qed

lemma rep_ends_0_nonempty: "rep_ends c g 0 s \<noteq> []"
  by (cases s) auto

lemma rep_ends_any_Nil: "[] \<in> set (rep_ends CAny g 0 s)"
  by (induction s) auto

lemma rep_ends_mono: "set (rep_ends c g (Suc lo) s) \<subseteq> set (rep_ends c g lo s)"
proof (induction c g lo s rule: rep_ends.induct)
  case (1 c g lo)
  show ?case by simp
next
  case (2 c g lo x xs)
  show ?case
  proof (cases lo)
    case 0
    then show ?thesis by auto
  next
    case (Suc k)
    with 2(3) show ?thesis by auto
  qed
qed

lemma ms_suffix: "(s', cp') \<in> set (ms r (s, cp)) \<Longrightarrow> suffix s' s"
proof (induction r arbitrary: s cp s' cp')
  case (Lit w)
  then have "after_word (=) w s = Some s'" by (auto split: option.splits)
  from after_word_split [OF this] show ?case by (auto simp: suffix_def)
next
  case (LitI w)
  then have "after_word ignorecase_eq w s = Some s'" by (auto split: option.splits)
  from after_word_split [OF this] show ?case by (auto simp: suffix_def)
next
  case (Rep c g lo)
  then show ?case by (auto dest!: rep_ends_split simp: suffix_def)
next
  case (Seq a b)
  then obtain s1 cp1
    where "(s1, cp1) \<in> set (ms a (s, cp))" "(s', cp') \<in> set (ms b (s1, cp1))"
    by auto
  with Seq.IH show ?case by (meson suffix_order.trans)
next
  case (Look r)
  then show ?case by (auto split: list.splits)
qed (auto split: if_splits)

lemma map_fst_update: "map (fst \<circ> (\<lambda>(s', cp'). (s', F s' cp'))) xs = map fst xs"
  by (induction xs) auto

lemma fst_ms: "map fst (ms r (s, cp)) = ends r s"
proof (induction r arbitrary: s cp)
  case (Seq a b)
  have "map fst (ms (Seq a b) (s, c)) = concat (map (ends b) (ends a s))" for c
  proof -
    have "map fst (ms (Seq a b) (s, c)) = concat (map (\<lambda>st. map fst (ms b st)) (ms a (s, c)))"
      by (simp add: map_concat comp_def)
    also have "\<dots> = concat (map (\<lambda>st. ends b (fst st)) (ms a (s, c)))"
      using Seq.IH(2) by (intro arg_cong [where f = concat] map_cong) (auto simp: split_paired_all)
    also have "\<dots> = concat (map (ends b) (map fst (ms a (s, c))))"
      by (simp add: comp_def)
    finally show ?thesis by (simp add: Seq.IH(1))
  qed
  then show ?case unfolding ends_def by simp
next
  case (Grp i r)
  have "map fst (ms (Grp i r) (s, c)) = map fst (ms r (s, c))" for c
    by (simp add: map_fst_update)
  with Grp show ?case by (simp only: ends_def)
next
  case (Look r)
  have e: "ms r (s, c) = [] \<longleftrightarrow> ends r s = []" for c
    using Look [of s c] by (metis map_is_Nil_conv)
  have "map fst (ms (Look r) (s, c)) = (if ends r s = [] then [] else [s])" for c
    using e [of c] by (auto split: list.splits)
  then show ?case unfolding ends_def [of "Look r"] by (simp only:)
next
  case (Alt a b)
  show ?case using Alt.IH(1) [of s cp] Alt.IH(2) [of s cp] by (simp add: ends_def)
qed (auto simp: ends_def split: option.splits)

lemma ends_Seq: "ends (Seq a b) s = concat (map (ends b) (ends a s))"
proof -
  have "ends (Seq a b) s = concat (map (\<lambda>st. map fst (ms b st)) (ms a (s, Map.empty)))"
    by (simp add: ends_def map_concat comp_def)
  also have "\<dots> = concat (map (\<lambda>st. ends b (fst st)) (ms a (s, Map.empty)))"
    by (intro arg_cong [where f = concat] map_cong) (auto simp: fst_ms)
  also have "\<dots> = concat (map (ends b) (ends a s))"
    by (simp add: ends_def comp_def)
  finally show ?thesis .
qed

lemma ends_Alt: "ends (Alt a b) s = ends a s @ ends b s"
  by (simp add: ends_def)

lemma ends_Grp: "ends (Grp i r) s = ends r s"
  by (simp add: ends_def map_fst_update)

lemma ends_Look: "ends (Look r) s = (if ends r s = [] then [] else [s])"
  by (auto simp: ends_def split: list.splits)

lemma ends_Rep: "ends (Rep c g lo) s = rep_ends c g lo s"
  by (simp add: ends_def comp_def)

lemma ends_Lit: "ends (Lit w) s = (case after_word (=) w s of None \<Rightarrow> [] | Some s' \<Rightarrow> [s'])"
  by (simp add: ends_def split: option.splits)

lemma ends_LitI:
  "ends (LitI w) s = (case after_word ignorecase_eq w s of None \<Rightarrow> [] | Some s' \<Rightarrow> [s'])"
  by (simp add: ends_def split: option.splits)

lemma ends_EndZ: "ends EndZ s = (if s = [] then [[]] else [])"
  by (simp add: ends_def)

lemmas ends_simps = ends_Seq ends_Alt ends_Grp ends_Look ends_Rep ends_Lit ends_LitI ends_EndZ

lemma ends_suffix: "s' \<in> set (ends r s) \<Longrightarrow> suffix s' s"
  by (auto simp: ends_def dest: ms_suffix)

lemma ms_ends: "(s', cp') \<in> set (ms r (s, cp)) \<Longrightarrow> s' \<in> set (ends r s)"
  using fst_ms [of r s cp] by (metis fst_conv image_eqI list.set_map)

lemma match_at_in_ms: "match_at r adv s = Some m \<Longrightarrow> m \<in> set (ms r (s, Map.empty))"
proof -
  assume "match_at r adv s = Some m"
  then obtain rest
    where "filter (\<lambda>(s', cp). \<not> (adv \<and> length s' = length s)) (ms r (s, Map.empty)) = m # rest"
    by (auto simp: match_at_def split: list.splits)
  then have "m \<in> set (filter (\<lambda>(s', cp). \<not> (adv \<and> length s' = length s)) (ms r (s, Map.empty)))"
    by simp
  then show ?thesis by simp
qed

lemma search_in_ms:
  "search r adv s = Some (st, m) \<Longrightarrow> suffix st s \<and> m \<in> set (ms r (st, Map.empty))"
proof (induction s arbitrary: adv)
  case Nil
  then show ?case by (auto dest: match_at_in_ms)
next
  case (Cons c cs)
  show ?case
  proof (cases "match_at r adv (c # cs)")
    case None
    with Cons.prems have "search r False cs = Some (st, m)" by simp
    with Cons.IH show ?thesis by (auto simp: suffix_Cons)
  next
    case (Some m')
    with Cons.prems show ?thesis by (auto dest: match_at_in_ms)
  qed
qed

section \<open>Bodies without markers\<close>

lemma marker_at_ends:
  "marker_at kw s \<longleftrightarrow> ends (seqs [LitI kw, many0 CSpace, many1 digit]) s \<noteq> []"
  by (simp add: marker_at_def ends_def)

lemma has_marker_suffix: "suffix t s \<Longrightarrow> marker_at kw t \<Longrightarrow> has_marker kw s"
  by (auto simp: has_marker_def list_ex_iff)

lemma lookahead_marker:
  assumes "ends (seqs [many1 newline, many0 CSpace, LitI kw, many0 CSpace, many1 digit]) t \<noteq> []"
  shows "\<exists>t'. suffix t' t \<and> marker_at kw t'"
proof -
  let ?R = "seqs [LitI kw, many0 CSpace, many1 digit]"
  from assms obtain e
    where "e \<in> set (ends (seqs [many1 newline, many0 CSpace, LitI kw, many0 CSpace, many1 digit]) t)"
    by (meson last_in_set)
  then have "e \<in> set (ends (Seq (many1 newline) (Seq (many0 CSpace) ?R)) t)"
    by (simp only: seqs.simps)
  then have "\<exists>t1 t2. t1 \<in> set (ends (many1 newline) t) \<and> t2 \<in> set (ends (many0 CSpace) t1) \<and>
      e \<in> set (ends ?R t2)"
    unfolding ends_Seq [of "many1 newline"] ends_Seq [of "many0 CSpace"] by auto
  then obtain t1 t2
    where t1: "t1 \<in> set (ends (many1 newline) t)"
      and t2: "t2 \<in> set (ends (many0 CSpace) t1)"
      and e: "e \<in> set (ends ?R t2)"
    by blast
  from t1 t2 have "suffix t2 t" by (meson ends_suffix suffix_order.trans)
  moreover from e have "marker_at kw t2" unfolding marker_at_ends by auto
  ultimately show ?thesis by blast
qed

lemma title_match_marker:
  assumes "search title_regex False body = Some m"
  shows "has_marker kw_dieu body \<or> has_marker kw_muc body"
proof -
  obtain st s' cp' where m: "m = (st, s', cp')" by (cases m) auto
  from search_in_ms [OF assms [unfolded m]]
  have st: "suffix st body" and "(s', cp') \<in> set (ms title_regex (st, Map.empty))" by auto
  then have "s' \<in> set (ends title_regex st)" by (auto dest: ms_ends)
  then have "s' \<in> set (ends (Seq (Grp 1 (few1 CAny))
      (Look (Alt (Grp 2 (seqs [many1 newline, many0 CSpace, LitI kw_dieu, many0 CSpace, many1 digit]))
                 (Grp 3 (seqs [many1 newline, many0 CSpace, LitI kw_muc, many0 CSpace, many1 digit]))))) st)"
    unfolding title_regex_def by (simp only: seqs.simps)
  then have "\<exists>t. t \<in> set (ends (few1 CAny) st) \<and>
      (ends (seqs [many1 newline, many0 CSpace, LitI kw_dieu, many0 CSpace, many1 digit]) t \<noteq> []
       \<or> ends (seqs [many1 newline, many0 CSpace, LitI kw_muc, many0 CSpace, many1 digit]) t \<noteq> [])"
    unfolding ends_Seq [of "Grp 1 (few1 CAny)"] ends_Look ends_Alt ends_Grp
    by (auto split: if_splits)
  then obtain t
    where t: "t \<in> set (ends (few1 CAny) st)"
      and look: "ends (seqs [many1 newline, many0 CSpace, LitI kw_dieu, many0 CSpace, many1 digit]) t \<noteq> []
               \<or> ends (seqs [many1 newline, many0 CSpace, LitI kw_muc, many0 CSpace, many1 digit]) t \<noteq> []"
    by blast
  from t st have tb: "suffix t body" by (meson ends_suffix suffix_order.trans)
  from look show ?thesis
  proof
    assume "ends (seqs [many1 newline, many0 CSpace, LitI kw_dieu, many0 CSpace, many1 digit]) t \<noteq> []"
    from lookahead_marker [OF this] tb have "has_marker kw_dieu body"
      by (meson has_marker_suffix suffix_order.trans)
    then show ?thesis ..
  next
    assume "ends (seqs [many1 newline, many0 CSpace, LitI kw_muc, many0 CSpace, many1 digit]) t \<noteq> []"
    from lookahead_marker [OF this] tb have "has_marker kw_muc body"
      by (meson has_marker_suffix suffix_order.trans)
    then show ?thesis ..
  qed
qed

text \<open>
  C8: for a chapter or section body that holds no article marker and no section marker
  at any position, the title splitter gives the empty title and, as the remainder, the
  whole body trimmed of leading and trailing whitespace.
\<close>

theorem no_marker_no_title:
  assumes "\<not> has_marker kw_dieu body" and "\<not> has_marker kw_muc body"
  shows "split_title body = ([], strip body)"
proof (cases "search title_regex False body")
  case None
  then show ?thesis by (simp add: split_title_def)
next
  case (Some m)
  from title_match_marker [OF this] assms show ?thesis by simp
qed

lemma no_dieu_plain: "\<not> has_marker kw_dieu (ascii '' plain text'' @ [10])"
  by (simp add: has_marker_def marker_at_def eval_defs)

lemma no_muc_plain: "\<not> has_marker kw_muc (ascii '' plain text'' @ [10])"
  by (simp add: has_marker_def marker_at_def eval_defs)

theorem no_marker_no_title_witness:
  "\<not> has_marker kw_dieu (ascii '' plain text'' @ [10]) \<and> \<not> has_marker kw_muc (ascii '' plain text'' @ [10]) \<and>
   split_title (ascii '' plain text'' @ [10]) = ([], (ascii ''plain text''))"
proof -
  have "strip (ascii '' plain text'' @ [10]) = (ascii ''plain text'')"
    by (simp add: strip_def lstrip_def rstrip_def isspace_def ascii_def)
  with no_marker_no_title [OF no_dieu_plain no_muc_plain] no_dieu_plain no_muc_plain
  show ?thesis by simp
qed

section \<open>The chapter spans\<close>

lemma chuong_regex_unfold:
  "chuong_regex =
     Seq (many0 newline) (Seq (many0 CSpace)
       (Seq (Grp 1 (Seq (Lit kw_chuong) (Seq (many0 CSpace) (Grp 2 (many1 roman)))))
         (Seq (many0 CSpace) (Seq (Grp 3 (few0 CAny)) (Look (Alt chuong_mark EndZ))))))"
  unfolding chuong_regex_def by (simp only: seqs.simps)

lemma chuong_mark_unfold:
  "chuong_mark =
     Grp 4 (Seq (many1 newline) (Seq (many0 CSpace)
       (Seq (Lit kw_chuong) (Seq (many0 CSpace) (Grp 5 (many1 roman))))))"
  unfolding chuong_mark_def by (simp only: seqs.simps)

lemma in_ends_Seq: "e \<in> set (ends (Seq a b) s) \<longleftrightarrow> (\<exists>t \<in> set (ends a s). e \<in> set (ends b t))"
  by (auto simp: ends_Seq)

lemma ends_Seq_nonempty:
  "ends (Seq a b) s \<noteq> [] \<longleftrightarrow> (\<exists>t \<in> set (ends a s). ends b t \<noteq> [])"
proof -
  have "ends (Seq a b) s \<noteq> [] \<longleftrightarrow> (\<exists>e. e \<in> set (ends (Seq a b) s))"
    by (cases "ends (Seq a b) s") auto
  also have "\<dots> \<longleftrightarrow> (\<exists>t \<in> set (ends a s). \<exists>e. e \<in> set (ends b t))"
    unfolding in_ends_Seq by blast
  also have "\<dots> \<longleftrightarrow> (\<exists>t \<in> set (ends a s). ends b t \<noteq> [])"
  proof -
    have "(\<exists>e. e \<in> set xs) \<longleftrightarrow> xs \<noteq> []" for xs :: "ustring list" by (cases xs) auto
    then show ?thesis by simp
  qed
  finally show ?thesis .
qed

lemma in_ends_Lit: "u \<in> set (ends (Lit w) s) \<longleftrightarrow> s = w @ u"
  using after_word_eq [of w s u] by (cases "after_word (=) w s") (auto simp: ends_Lit)

text \<open>A chapter match ends at the end of the text or where the next chapter marker starts.\<close>

lemma chuong_end:
  assumes "e \<in> set (ends chuong_regex s)"
  shows "e = [] \<or> ends chuong_mark e \<noteq> []"
proof -
  from assms obtain t where "e \<in> set (ends (Look (Alt chuong_mark EndZ)) t)"
    unfolding chuong_regex_unfold in_ends_Seq by blast
  then show ?thesis
    by (auto simp: ends_Look ends_Alt ends_EndZ split: if_splits)
qed

text \<open>A chapter match consumes at least the keyword.\<close>

lemma chuong_consumes:
  assumes "e \<in> set (ends chuong_regex s)"
  shows "length e < length s"
proof -
  from assms obtain t1 t2 t3
    where t1: "t1 \<in> set (ends (many0 newline) s)"
      and t2: "t2 \<in> set (ends (many0 CSpace) t1)"
      and t3: "t3 \<in> set (ends (Grp 1 (Seq (Lit kw_chuong) (Seq (many0 CSpace) (Grp 2 (many1 roman))))) t2)"
      and e: "e \<in> set (ends (Seq (many0 CSpace) (Seq (Grp 3 (few0 CAny)) (Look (Alt chuong_mark EndZ)))) t3)"
    unfolding chuong_regex_unfold in_ends_Seq by blast
  from t3 obtain u where u: "u \<in> set (ends (Lit kw_chuong) t2)"
    and "t3 \<in> set (ends (Seq (many0 CSpace) (Grp 2 (many1 roman))) u)"
    unfolding ends_Grp in_ends_Seq by blast
  then have "suffix t3 u" by (auto dest: ends_suffix)
  moreover from u have "t2 = kw_chuong @ u" by (simp add: in_ends_Lit)
  ultimately have "length t3 < length t2" by (auto simp: suffix_def kw_chuong_def)
  moreover from t1 t2 have "length t2 \<le> length s"
    by (meson ends_suffix suffix_length_le le_trans)
  moreover from e have "length e \<le> length t3" by (meson ends_suffix suffix_length_le)
  ultimately show ?thesis by simp
qed

text \<open>Where a chapter marker is ahead, a chapter match starts.\<close>

lemma chuong_tail: "ends (Seq (many0 CSpace) (Seq (Grp 3 (few0 CAny)) (Look (Alt chuong_mark EndZ)))) t \<noteq> []"
proof -
  have "ends (many0 CSpace) t \<noteq> []" by (simp add: ends_Rep rep_ends_0_nonempty)
  then obtain t1 where t1: "t1 \<in> set (ends (many0 CSpace) t)" by (meson last_in_set)
  have "[] \<in> set (ends (Grp 3 (few0 CAny)) t1)"
    by (simp add: ends_Grp ends_Rep rep_ends_any_Nil)
  moreover have "ends (Look (Alt chuong_mark EndZ)) [] \<noteq> []"
    by (simp add: ends_Look ends_Alt ends_EndZ)
  ultimately have "ends (Seq (Grp 3 (few0 CAny)) (Look (Alt chuong_mark EndZ))) t1 \<noteq> []"
    unfolding ends_Seq_nonempty by blast
  with t1 show ?thesis unfolding ends_Seq_nonempty [of "many0 CSpace"] by blast
qed

lemma chuong_start:
  assumes "ends chuong_mark s \<noteq> []"
  shows "ends chuong_regex s \<noteq> []"
proof -
  from assms obtain t1 t2 t3 t4
    where t1: "t1 \<in> set (ends (many1 newline) s)"
      and t2: "t2 \<in> set (ends (many0 CSpace) t1)"
      and t3: "t3 \<in> set (ends (Lit kw_chuong) t2)"
      and t4: "t4 \<in> set (ends (many0 CSpace) t3)"
      and t5: "ends (Grp 5 (many1 roman)) t4 \<noteq> []"
    unfolding chuong_mark_unfold ends_Grp [of 4] ends_Seq_nonempty by blast
  from t1 have t1': "t1 \<in> set (ends (many0 newline) s)"
    using rep_ends_mono [of newline True 0 s] by (auto simp: ends_Rep)
  from t5 have t5': "ends (Grp 2 (many1 roman)) t4 \<noteq> []" by (simp add: ends_Grp)
  then obtain t6 where t6: "t6 \<in> set (ends (Grp 2 (many1 roman)) t4)"
    by (meson last_in_set)
  with t3 t4 have "t6 \<in> set (ends (Grp 1 (Seq (Lit kw_chuong) (Seq (many0 CSpace) (Grp 2 (many1 roman))))) t2)"
    unfolding ends_Grp [of 1] in_ends_Seq by blast
  with t1' t2 chuong_tail [of t6] show ?thesis
    unfolding chuong_regex_unfold ends_Seq_nonempty by blast
qed

lemma match_at_chuong:
  assumes "ends chuong_regex s \<noteq> []"
  shows "\<exists>m. match_at chuong_regex adv s = Some m"
proof -
  from assms have ne: "ms chuong_regex (s, Map.empty) \<noteq> []" by (auto simp: ends_def)
  have "\<not> (adv \<and> length s' = length s)" if "(s', cp') \<in> set (ms chuong_regex (s, Map.empty))" for s' cp'
    using chuong_consumes [OF ms_ends [OF that]] by simp
  then have "filter (\<lambda>(s', cp). \<not> (adv \<and> length s' = length s)) (ms chuong_regex (s, Map.empty))
      = ms chuong_regex (s, Map.empty)"
    by (intro filter_True) auto
  with ne show ?thesis by (auto simp: match_at_def split: list.splits)
qed

lemma search_at_start: "match_at r adv s = Some m \<Longrightarrow> search r adv s = Some (s, m)"
  by (cases s) auto

lemma scan_Nil_chuong: "scan chuong_regex adv [] = []"
proof -
  have "ms chuong_regex ([], Map.empty) = []"
  proof (rule ccontr)
    assume "ms chuong_regex ([], Map.empty) \<noteq> []"
    then obtain m where "m \<in> set (ms chuong_regex ([], Map.empty))" by (meson last_in_set)
    then obtain a b where "(a, b) \<in> set (ms chuong_regex ([], Map.empty))" by (metis surj_pair)
    then have "a \<in> set (ends chuong_regex [])" by (rule ms_ends)
    from chuong_consumes [OF this] show False by simp
  qed
  then show ?thesis by (simp add: scan.simps match_at_def)
qed

lemma suffix_take: "suffix s' st \<Longrightarrow> take (length st - length s') st @ s' = st"
  by (auto simp: suffix_def)

text \<open>The matches follow one another without a gap: each starts where the one before ends.\<close>

lemma scan_chuong_tiles:
  "scan chuong_regex adv s = m # rest \<Longrightarrow> concat (map group0 (m # rest)) = fst m"
proof (induction "length s" arbitrary: s adv m rest rule: less_induct)
  case less
  from less.prems obtain st s' cp'
    where found: "search chuong_regex adv s = Some (st, s', cp')"
      and m: "m = (st, s', cp')"
      and rest: "rest = scan chuong_regex (length s' = length st) s'"
    by (auto simp: scan.simps [of chuong_regex adv s] split: option.splits)
  from search_in_ms [OF found]
  have st: "suffix st s" and in_ms: "(s', cp') \<in> set (ms chuong_regex (st, Map.empty))" by auto
  from in_ms have e: "s' \<in> set (ends chuong_regex st)" by (rule ms_ends)
  then have suf: "suffix s' st" by (rule ends_suffix)
  from chuong_consumes [OF e] st have shorter: "length s' < length s"
    by (meson suffix_length_le less_le_trans)
  have g0: "group0 m @ s' = st" unfolding m group0_def using suf by (simp add: suffix_take)
  show ?case
  proof (cases rest)
    case Nil
    have "s' = []"
    proof (rule ccontr)
      assume "s' \<noteq> []"
      with chuong_end [OF e] have "ends chuong_mark s' \<noteq> []" by simp
      then have "ends chuong_regex s' \<noteq> []" by (rule chuong_start)
      from match_at_chuong [OF this] obtain m' where
        "match_at chuong_regex (length s' = length st) s' = Some m'" by blast
      then have "search chuong_regex (length s' = length st) s' = Some (s', m')"
        by (rule search_at_start)
      then have "scan chuong_regex (length s' = length st) s' \<noteq> []"
        by (cases m') (simp add: scan.simps [of chuong_regex _ s'])
      with Nil rest show False by simp
    qed
    with g0 Nil m show ?thesis by simp
  next
    case (Cons m2 rest2)
    with rest have sc: "scan chuong_regex (length s' = length st) s' = m2 # rest2" by simp
    then have "s' \<noteq> []" using scan_Nil_chuong by auto
    with chuong_end [OF e] have "ends chuong_mark s' \<noteq> []" by simp
    then have "ends chuong_regex s' \<noteq> []" by (rule chuong_start)
    from match_at_chuong [OF this] obtain m' where
      "match_at chuong_regex (length s' = length st) s' = Some m'" by blast
    then have "search chuong_regex (length s' = length st) s' = Some (s', m')"
      by (rule search_at_start)
    with sc have "fst m2 = s'" by (cases m') (auto simp: scan.simps [of chuong_regex _ s'])
    moreover from less.hyps [OF shorter sc] have "concat (map group0 (m2 # rest2)) = fst m2" .
    ultimately show ?thesis using g0 Cons m by simp
  qed
qed

text \<open>What one step of a match does to the text and to the groups.\<close>

lemma in_ms_Seq:
  assumes "x \<in> set (ms (Seq a b) st)"
  shows "\<exists>s1 c1. (s1, c1) \<in> set (ms a st) \<and> x \<in> set (ms b (s1, c1))"
  using assms by auto

lemma in_ms_Rep:
  assumes "(s', cp') \<in> set (ms (Rep c g lo) (s, cp))"
  shows "cp' = cp \<and> (\<exists>u. s = u @ s' \<and> list_all (in_class c) u \<and> lo \<le> length u)"
proof -
  from assms have "cp' = cp" and "s' \<in> set (rep_ends c g lo s)" by auto
  with rep_ends_split [of s' c g lo s] show ?thesis by simp
qed

lemma in_ms_Lit:
  assumes "(s', cp') \<in> set (ms (Lit w) (s, cp))"
  shows "cp' = cp \<and> s = w @ s'"
proof -
  from assms have "cp' = cp" and "after_word (=) w s = Some s'"
    by (auto split: option.splits)
  then show ?thesis by (simp add: after_word_eq)
qed

lemma in_ms_Grp:
  assumes "(s', cp') \<in> set (ms (Grp i r) (s, cp))"
  shows "\<exists>cp1. (s', cp1) \<in> set (ms r (s, cp)) \<and> cp' = cp1(i \<mapsto> take (length s - length s') s)"
  using assms by auto

lemma in_ms_Look:
  assumes "(s', cp') \<in> set (ms (Look r) (s, cp))"
  shows "s' = s \<and> (\<exists>s1. (s1, cp') \<in> set (ms r (s, cp)))"
proof (cases "ms r (s, cp)")
  case Nil
  with assms show ?thesis by simp
next
  case (Cons x xs)
  obtain s1 c1 where "x = (s1, c1)" by (cases x) auto
  with Cons assms show ?thesis by auto
qed

lemma ms_frame: "(s', cp') \<in> set (ms r (s, cp)) \<Longrightarrow> i \<notin> groups_of r \<Longrightarrow> cp' i = cp i"
proof (induction r arbitrary: s cp s' cp')
  case (Lit w)
  then show ?case by (auto split: option.splits)
next
  case (LitI w)
  then show ?case by (auto split: option.splits)
next
  case (Seq a b)
  from Seq.prems(1) obtain s1 cp1
    where a: "(s1, cp1) \<in> set (ms a (s, cp))" and b: "(s', cp') \<in> set (ms b (s1, cp1))"
    by auto
  from Seq.prems(2) have "i \<notin> groups_of a" "i \<notin> groups_of b" by auto
  with Seq.IH(1) [OF a] Seq.IH(2) [OF b] show ?case by simp
next
  case (Alt a b)
  then show ?case by auto
next
  case (Grp j r)
  from in_ms_Grp [OF Grp.prems(1)] obtain cp1
    where r: "(s', cp1) \<in> set (ms r (s, cp))" and cp': "cp' = cp1(j \<mapsto> take (length s - length s') s)"
    by blast
  from Grp.prems(2) have "i \<noteq> j" "i \<notin> groups_of r" by auto
  with Grp.IH [OF r] cp' show ?case by simp
next
  case (Look r)
  from in_ms_Look [OF Look.prems(1)] obtain s1 where "(s1, cp') \<in> set (ms r (s, cp))" by blast
  with Look show ?case by auto
qed (auto split: if_splits)

lemma take_append_diff: "take (length (u @ s') - length s') (u @ s') = u"
  by simp

text \<open>
  The parts of a chapter match: whitespace, the marker (group 1: the keyword,
  whitespace, roman numerals), whitespace, and the body (group 3).
\<close>

lemma chuong_groups:
  assumes "(s', cp') \<in> set (ms chuong_regex (st, cp0))"
  shows "\<exists>lead ws num gap body.
           st = lead @ (kw_chuong @ ws @ num) @ gap @ body @ s' \<and>
           list_all isspace lead \<and> list_all isspace gap \<and>
           cp' 1 = Some (kw_chuong @ ws @ num) \<and> cp' 3 = Some body"
proof -
  let ?inner = "Seq (Lit kw_chuong) (Seq (many0 CSpace) (Grp 2 (many1 roman)))"
  from assms [unfolded chuong_regex_unfold] obtain t1 c1
    where y1: "(t1, c1) \<in> set (ms (many0 newline) (st, cp0))"
      and r1: "(s', cp') \<in> set (ms (Seq (many0 CSpace) (Seq (Grp 1 ?inner)
                 (Seq (many0 CSpace) (Seq (Grp 3 (few0 CAny)) (Look (Alt chuong_mark EndZ)))))) (t1, c1))"
    using in_ms_Seq by blast
  from in_ms_Seq [OF r1] obtain t2 c2
    where y2: "(t2, c2) \<in> set (ms (many0 CSpace) (t1, c1))"
      and r2: "(s', cp') \<in> set (ms (Seq (Grp 1 ?inner)
                 (Seq (many0 CSpace) (Seq (Grp 3 (few0 CAny)) (Look (Alt chuong_mark EndZ))))) (t2, c2))"
    by blast
  from in_ms_Seq [OF r2] obtain t3 c3
    where y3: "(t3, c3) \<in> set (ms (Grp 1 ?inner) (t2, c2))"
      and r3: "(s', cp') \<in> set (ms (Seq (many0 CSpace)
                 (Seq (Grp 3 (few0 CAny)) (Look (Alt chuong_mark EndZ)))) (t3, c3))"
    by blast
  from in_ms_Seq [OF r3] obtain t4 c4
    where y4: "(t4, c4) \<in> set (ms (many0 CSpace) (t3, c3))"
      and r4: "(s', cp') \<in> set (ms (Seq (Grp 3 (few0 CAny)) (Look (Alt chuong_mark EndZ))) (t4, c4))"
    by blast
  from in_ms_Seq [OF r4] obtain t5 c5
    where y5: "(t5, c5) \<in> set (ms (Grp 3 (few0 CAny)) (t4, c4))"
      and y6: "(s', cp') \<in> set (ms (Look (Alt chuong_mark EndZ)) (t5, c5))"
    by blast
  from in_ms_Rep [OF y1] obtain u1
    where u1: "st = u1 @ t1" "list_all (in_class newline) u1" by blast
  from in_ms_Rep [OF y2] obtain u2
    where u2: "t1 = u2 @ t2" "list_all (in_class CSpace) u2" by blast
  from in_ms_Grp [OF y3] obtain c3'
    where inner: "(t3, c3') \<in> set (ms ?inner (t2, c2))"
      and c3: "c3 = c3'(1 \<mapsto> take (length t2 - length t3) t2)"
    by blast
  from in_ms_Seq [OF inner] obtain a ca
    where a: "(a, ca) \<in> set (ms (Lit kw_chuong) (t2, c2))"
      and ri: "(t3, c3') \<in> set (ms (Seq (many0 CSpace) (Grp 2 (many1 roman))) (a, ca))"
    by blast
  from in_ms_Seq [OF ri] obtain b cb
    where b: "(b, cb) \<in> set (ms (many0 CSpace) (a, ca))"
      and n: "(t3, c3') \<in> set (ms (Grp 2 (many1 roman)) (b, cb))"
    by blast
  from in_ms_Lit [OF a] have t2: "t2 = kw_chuong @ a" by simp
  from in_ms_Rep [OF b] obtain ws where ws: "a = ws @ b" by blast
  from in_ms_Grp [OF n] obtain cn where "(t3, cn) \<in> set (ms (many1 roman) (b, cb))" by blast
  from in_ms_Rep [OF this] obtain num where num: "b = num @ t3" by blast
  from t2 ws num have t2': "t2 = (kw_chuong @ ws @ num) @ t3" by simp
  have g1: "c3 1 = Some (kw_chuong @ ws @ num)"
    unfolding c3 t2' take_append_diff by simp
  from in_ms_Rep [OF y4] obtain gap
    where gap: "t3 = gap @ t4" "list_all (in_class CSpace) gap" "c4 = c3" by blast
  from in_ms_Grp [OF y5] obtain c5'
    where any: "(t5, c5') \<in> set (ms (few0 CAny) (t4, c4))"
      and c5: "c5 = c5'(3 \<mapsto> take (length t4 - length t5) t4)"
    by blast
  from in_ms_Rep [OF any] obtain body where body: "t4 = body @ t5" "c5' = c4" by blast
  have g3: "c5 3 = Some body" unfolding c5 body(1) take_append_diff by simp
  have g1': "c5 1 = Some (kw_chuong @ ws @ num)" unfolding c5 body(2) gap(3) using g1 by simp
  from in_ms_Look [OF y6] obtain s1
    where s': "s' = t5" and look: "(s1, cp') \<in> set (ms (Alt chuong_mark EndZ) (t5, c5))" by blast
  have "1 \<notin> groups_of (Alt chuong_mark EndZ)" "3 \<notin> groups_of (Alt chuong_mark EndZ)"
    by (simp_all add: chuong_mark_unfold)
  with ms_frame [OF look] g1' g3
  have caps: "cp' 1 = Some (kw_chuong @ ws @ num)" "cp' 3 = Some body" by simp_all
  have "list_all isspace (u1 @ u2)"
    using u1(2) u2(2) by (auto simp: list_all_iff newline_def isspace_def)
  moreover have "list_all isspace gap" using gap(2) by (simp add: list_all_iff)
  moreover have "st = (u1 @ u2) @ (kw_chuong @ ws @ num) @ gap @ body @ s'"
    using u1(1) u2(1) t2' gap(1) body(1) s' by simp
  ultimately show ?thesis using caps by blast
qed

lemma scan_in_ms:
  "x \<in> set (scan r adv s) \<Longrightarrow> snd x \<in> set (ms r (fst x, Map.empty))"
proof (induction r adv s rule: scan.induct)
  case (1 r adv s)
  show ?case
  proof (cases "search r adv s")
    case None
    with "1.prems" show ?thesis by (simp add: scan.simps [of r adv s])
  next
    case (Some found)
    obtain st s' cp' where found: "found = (st, s', cp')" by (cases found) auto
    with Some "1.prems" have "x = (st, s', cp') \<or> x \<in> set (scan r (length s' = length st) s')"
      by (simp add: scan.simps [of r adv s])
    then show ?thesis
    proof
      assume "x = (st, s', cp')"
      with search_in_ms [of r adv s st "(s', cp')"] Some found show ?thesis by simp
    next
      assume "x \<in> set (scan r (length s' = length st) s')"
      with "1.IH" [OF Some found [symmetric] refl] show ?thesis by simp
    qed
  qed
qed

lemma chuong_match_parts:
  assumes "x \<in> set (scan chuong_regex adv s)"
  shows "\<exists>lead ws num gap.
           group0 x = lead @ group x 1 @ gap @ group x 3 \<and>
           group x 1 = kw_chuong @ ws @ num \<and>
           fst x = lead @ group x 1 @ gap @ group x 3 @ fst (snd x) \<and>
           list_all isspace lead \<and> list_all isspace gap"
proof -
  obtain st s' cp' where x: "x = (st, s', cp')" by (metis surj_pair)
  from scan_in_ms [OF assms] have "(s', cp') \<in> set (ms chuong_regex (st, Map.empty))"
    by (simp add: x)
  from chuong_groups [OF this] obtain lead ws num gap body
    where st: "st = lead @ (kw_chuong @ ws @ num) @ gap @ body @ s'"
      and sp: "list_all isspace lead" "list_all isspace gap"
      and caps: "cp' 1 = Some (kw_chuong @ ws @ num)" "cp' 3 = Some body"
    by blast
  have "group0 x = lead @ (kw_chuong @ ws @ num) @ gap @ body"
    unfolding x group0_def st by simp
  with st sp caps show ?thesis unfolding x by (auto simp: group_def)
qed

lemma chuong_bodies_scan: "chuong_bodies s = map (\<lambda>x. group x 3) (scan chuong_regex False s)"
  by (simp add: chuong_bodies_def findall_def group_numbers)

lemma spans_two_chapters:
  "map group0 (scan chuong_regex False (kw_chuong @ ascii '' I'' @ 10 # ascii ''A'' @ 10 # kw_chuong @ ascii '' II'' @ 10 # ascii ''B'')) = [(kw_chuong @ ascii '' I'' @ 10 # ascii ''A''), (10 # kw_chuong @ ascii '' II'' @ 10 # ascii ''B'')]"
  by (simp add: eval_defs)

lemma starts_two_chapters:
  "map fst (scan chuong_regex False (kw_chuong @ ascii '' I'' @ 10 # ascii ''A'' @ 10 # kw_chuong @ ascii '' II'' @ 10 # ascii ''B'')) =
     [(kw_chuong @ ascii '' I'' @ 10 # ascii ''A'' @ 10 # kw_chuong @ ascii '' II'' @ 10 # ascii ''B''), (10 # kw_chuong @ ascii '' II'' @ 10 # ascii ''B'')]"
  by (simp add: eval_defs)

lemma bodies_two_chapters: "chuong_bodies (kw_chuong @ ascii '' I'' @ 10 # ascii ''A'' @ 10 # kw_chuong @ ascii '' II'' @ 10 # ascii ''B'') = [(ascii ''A''), (ascii ''B'')]"
  by (simp add: chuong_bodies_def eval_defs)

lemma after_two_chapters: "after_first_marker (kw_chuong @ ascii '' I'' @ 10 # ascii ''A'' @ 10 # kw_chuong @ ascii '' II'' @ 10 # ascii ''B'') = (10 # ascii ''A'' @ 10 # kw_chuong @ ascii '' II'' @ 10 # ascii ''B'')"
  by (simp add: after_first_marker_def eval_defs)

lemma no_dieu_two_chapters: "\<not> has_marker kw_dieu (kw_chuong @ ascii '' I'' @ 10 # ascii ''A'' @ 10 # kw_chuong @ ascii '' II'' @ 10 # ascii ''B'')"
  by (simp add: has_marker_def marker_at_def eval_defs)

lemma no_muc_two_chapters: "\<not> has_marker kw_muc (kw_chuong @ ascii '' I'' @ 10 # ascii ''A'' @ 10 # kw_chuong @ ascii '' II'' @ 10 # ascii ''B'')"
  by (simp add: has_marker_def marker_at_def eval_defs)

text \<open>
  C4, as stated, fails: the text of two chapters "Chuong I", "A", "Chuong II", "B" (one
  per line) holds chapter markers only. Its chapter body spans are "A" and "B"; their
  concatenation "AB" is not the text after the first chapter marker, which also holds
  the line breaks and the second marker.
\<close>

theorem bodies_leave_gaps:
  "\<not> has_marker kw_dieu (kw_chuong @ ascii '' I'' @ 10 # ascii ''A'' @ 10 # kw_chuong @ ascii '' II'' @ 10 # ascii ''B'') \<and>
   \<not> has_marker kw_muc (kw_chuong @ ascii '' I'' @ 10 # ascii ''A'' @ 10 # kw_chuong @ ascii '' II'' @ 10 # ascii ''B'') \<and>
   chuong_bodies (kw_chuong @ ascii '' I'' @ 10 # ascii ''A'' @ 10 # kw_chuong @ ascii '' II'' @ 10 # ascii ''B'') = [(ascii ''A''), (ascii ''B'')] \<and>
   after_first_marker (kw_chuong @ ascii '' I'' @ 10 # ascii ''A'' @ 10 # kw_chuong @ ascii '' II'' @ 10 # ascii ''B'') = (10 # ascii ''A'' @ 10 # kw_chuong @ ascii '' II'' @ 10 # ascii ''B'') \<and>
   concat (chuong_bodies (kw_chuong @ ascii '' I'' @ 10 # ascii ''A'' @ 10 # kw_chuong @ ascii '' II'' @ 10 # ascii ''B'')) \<noteq> after_first_marker (kw_chuong @ ascii '' I'' @ 10 # ascii ''A'' @ 10 # kw_chuong @ ascii '' II'' @ 10 # ascii ''B'')"
  unfolding bodies_two_chapters after_two_chapters
  using no_dieu_two_chapters no_muc_two_chapters by simp

text \<open>
  C4, amended: for every text in which the chapter matcher finds a match, the chapter
  matches follow one another without gap or overlap: the concatenation of the full match
  spans is the text from the start of the first match to its end. Each span is
  whitespace, the chapter marker (group 1), whitespace, and the body span (group 3); the
  body spans are what \<open>findall\<close> returns as \<open>chuong[2]\<close>. So the bodies, in order, make up the
  text after the first marker except for the whitespace after each marker and for every
  later marker with the whitespace before it.
\<close>

theorem chuong_spans_tile:
  assumes "scan chuong_regex False s = m # rest"
  shows "suffix (fst m) s \<and>
         concat (map group0 (m # rest)) = fst m \<and>
         chuong_bodies s = map (\<lambda>x. group x 3) (m # rest) \<and>
         (\<forall>x \<in> set (m # rest). \<exists>lead gap.
            group0 x = lead @ group x 1 @ gap @ group x 3 \<and>
            list_all isspace lead \<and> list_all isspace gap) \<and>
         (\<exists>lead. fst m = lead @ group m 1 @ after_first_marker s \<and> list_all isspace lead)"
proof -
  obtain st s' cp' where m: "m = (st, s', cp')" by (metis surj_pair)
  from assms have "search chuong_regex False s = Some (st, s', cp')"
    by (auto simp: m scan.simps [of chuong_regex False s] split: option.splits)
  from search_in_ms [OF this] have 1: "suffix (fst m) s" by (simp add: m)
  from scan_chuong_tiles [OF assms] have 2: "concat (map group0 (m # rest)) = fst m" .
  have 3: "chuong_bodies s = map (\<lambda>x. group x 3) (m # rest)"
    by (simp only: chuong_bodies_scan assms)
  have 4: "\<forall>x \<in> set (m # rest). \<exists>lead gap.
            group0 x = lead @ group x 1 @ gap @ group x 3 \<and>
            list_all isspace lead \<and> list_all isspace gap"
  proof
    fix x
    assume "x \<in> set (m # rest)"
    then have "x \<in> set (scan chuong_regex False s)" by (simp only: assms)
    from chuong_match_parts [OF this] show "\<exists>lead gap.
            group0 x = lead @ group x 1 @ gap @ group x 3 \<and>
            list_all isspace lead \<and> list_all isspace gap"
      by blast
  qed
  have "m \<in> set (scan chuong_regex False s)" by (simp add: assms)
  from chuong_match_parts [OF this] obtain lead ws num gap
    where g1: "group m 1 = kw_chuong @ ws @ num"
      and whole: "fst m = lead @ group m 1 @ gap @ group m 3 @ fst (snd m)"
      and lead: "list_all isspace lead"
    by blast
  have "dropWhile isspace (fst m) = group m 1 @ gap @ group m 3 @ fst (snd m)"
  proof -
    have "dropWhile isspace (fst m) = dropWhile isspace (group m 1 @ gap @ group m 3 @ fst (snd m))"
      using lead by (subst whole) (simp add: dropWhile_append2 list_all_iff)
    also have "\<dots> = group m 1 @ gap @ group m 3 @ fst (snd m)"
      unfolding g1 by (simp add: kw_chuong_def isspace_def)
    finally show ?thesis .
  qed
  then have "after_first_marker s = gap @ group m 3 @ fst (snd m)"
    by (simp add: after_first_marker_def assms)
  with whole lead have 5: "\<exists>lead. fst m = lead @ group m 1 @ after_first_marker s \<and> list_all isspace lead"
    by auto
  from 1 2 3 4 5 show ?thesis by blast
qed

theorem chuong_spans_tile_witness:
  "scan chuong_regex False (kw_chuong @ ascii '' I'' @ 10 # ascii ''A'' @ 10 # kw_chuong @ ascii '' II'' @ 10 # ascii ''B'') \<noteq> [] \<and>
   map group0 (scan chuong_regex False (kw_chuong @ ascii '' I'' @ 10 # ascii ''A'' @ 10 # kw_chuong @ ascii '' II'' @ 10 # ascii ''B'')) = [(kw_chuong @ ascii '' I'' @ 10 # ascii ''A''), (10 # kw_chuong @ ascii '' II'' @ 10 # ascii ''B'')] \<and>
   concat (map group0 (scan chuong_regex False (kw_chuong @ ascii '' I'' @ 10 # ascii ''A'' @ 10 # kw_chuong @ ascii '' II'' @ 10 # ascii ''B''))) = (kw_chuong @ ascii '' I'' @ 10 # ascii ''A'' @ 10 # kw_chuong @ ascii '' II'' @ 10 # ascii ''B'') \<and>
   chuong_bodies (kw_chuong @ ascii '' I'' @ 10 # ascii ''A'' @ 10 # kw_chuong @ ascii '' II'' @ 10 # ascii ''B'') = [(ascii ''A''), (ascii ''B'')]"
proof -
  let ?T = "(kw_chuong @ ascii '' I'' @ 10 # ascii ''A'' @ 10 # kw_chuong @ ascii '' II'' @ 10 # ascii ''B'')"
  from starts_two_chapters obtain m rest where mr: "scan chuong_regex False ?T = m # rest"
    by (cases "scan chuong_regex False ?T") auto
  with starts_two_chapters have m: "fst m = ?T" by auto
  from chuong_spans_tile [OF mr] have "concat (map group0 (m # rest)) = fst m" by blast
  with mr m have "concat (map group0 (scan chuong_regex False ?T)) = ?T" by simp
  with mr spans_two_chapters bodies_two_chapters show ?thesis by simp
qed

section \<open>What the matchers detect\<close>

lemma rep_ends_self: "s \<in> set (rep_ends c g 0 s)"
  by (cases s) auto

lemma rep_ends_any_all: "s \<noteq> [] \<Longrightarrow> [] \<in> set (rep_ends CAny g (Suc 0) s)"
  by (cases s) (auto simp: rep_ends_any_Nil)

lemma match_at_False:
  "match_at r False s = (case ms r (s, Map.empty) of [] \<Rightarrow> None | m # _ \<Rightarrow> Some m)"
  by (simp add: match_at_def)

lemma search_complete:
  "suffix t s \<Longrightarrow> ms r (t, Map.empty) \<noteq> [] \<Longrightarrow> search r False s \<noteq> None"
proof (induction s)
  case Nil
  then show ?case by (auto simp: match_at_False split: list.splits)
next
  case (Cons c cs)
  show ?case
  proof (cases "match_at r False (c # cs)")
    case (Some m)
    then show ?thesis by simp
  next
    case None
    then have "ms r (c # cs, Map.empty) = []" by (auto simp: match_at_False split: list.splits)
    with Cons.prems have "t \<noteq> c # cs" by auto
    with Cons.prems(1) have "suffix t cs" by (auto simp: suffix_Cons)
    with Cons.IH Cons.prems(2) None show ?thesis by simp
  qed
qed

lemma findall_found:
  "findall r n s \<noteq> [] \<longleftrightarrow> (\<exists>t. suffix t s \<and> ends r t \<noteq> [])"
proof
  assume "findall r n s \<noteq> []"
  then obtain st m where "search r False s = Some (st, m)"
    by (auto simp: findall_def scan.simps [of r False s] split: option.splits)
  from search_in_ms [OF this] have "suffix st s" "m \<in> set (ms r (st, Map.empty))" by auto
  then have "suffix st s \<and> ends r st \<noteq> []" by (auto simp: ends_def)
  then show "\<exists>t. suffix t s \<and> ends r t \<noteq> []" ..
next
  assume "\<exists>t. suffix t s \<and> ends r t \<noteq> []"
  then obtain t where "suffix t s" "ms r (t, Map.empty) \<noteq> []" by (auto simp: ends_def)
  then have "search r False s \<noteq> None" by (rule search_complete)
  then show "findall r n s \<noteq> []"
    by (auto simp: findall_def scan.simps [of r False s])
qed

lemma chapter_marker_at_ends:
  "chapter_marker_at s \<longleftrightarrow> ends (Seq (Lit kw_chuong) (Seq (many0 CSpace) (many1 roman))) s \<noteq> []"
  by (simp add: chapter_marker_at_def ends_def)

lemma section_start_at_ends:
  "section_start_at s \<longleftrightarrow>
     ends (Seq (Lit kw_muc) (Seq (many0 CSpace) (Seq (many1 digit) (few1 CAny)))) s \<noteq> []"
  by (simp add: section_start_at_def ends_def)

lemma has_chapter_marker_iff: "has_chapter_marker s \<longleftrightarrow> (\<exists>t. suffix t s \<and> chapter_marker_at t)"
  by (auto simp: has_chapter_marker_def list_ex_iff)

lemma has_section_start_iff: "has_section_start s \<longleftrightarrow> (\<exists>t. suffix t s \<and> section_start_at t)"
  by (auto simp: has_section_start_def list_ex_iff)

lemma ends_Seq_D: "ends (Seq a b) s \<noteq> [] \<Longrightarrow> \<exists>t. t \<in> set (ends a s) \<and> ends b t \<noteq> []"
  unfolding ends_Seq_nonempty by blast

lemma ends_Seq_I: "t \<in> set (ends a s) \<Longrightarrow> ends b t \<noteq> [] \<Longrightarrow> ends (Seq a b) s \<noteq> []"
  unfolding ends_Seq_nonempty by blast

lemma member_nonempty: "x \<in> set xs \<Longrightarrow> xs \<noteq> []"
  by auto

text \<open>The chapter matcher finds a match exactly when the text holds a chapter marker.\<close>

lemma chuong_found_iff: "findall chuong_regex 5 s \<noteq> [] \<longleftrightarrow> has_chapter_marker s"
proof
  let ?mark = "Seq (Lit kw_chuong) (Seq (many0 CSpace) (Grp 2 (many1 roman)))"
  let ?tail = "Seq (many0 CSpace) (Seq (Grp 3 (few0 CAny)) (Look (Alt chuong_mark EndZ)))"
  have mark: "ends (Grp 1 ?mark) t \<noteq> [] \<longleftrightarrow> chapter_marker_at t" for t
    unfolding chapter_marker_at_ends ends_Grp [of 1] ends_Seq_nonempty ends_Grp [of 2] ..
  {
    assume "findall chuong_regex 5 s \<noteq> []"
    then obtain t where t: "suffix t s" and e: "ends chuong_regex t \<noteq> []"
      unfolding findall_found by blast
    from ends_Seq_D [OF e [unfolded chuong_regex_unfold]] obtain t1
      where t1: "t1 \<in> set (ends (many0 newline) t)"
        and e1: "ends (Seq (many0 CSpace) (Seq (Grp 1 ?mark) ?tail)) t1 \<noteq> []"
      by blast
    from ends_Seq_D [OF e1] obtain t2
      where t2: "t2 \<in> set (ends (many0 CSpace) t1)"
        and e2: "ends (Seq (Grp 1 ?mark) ?tail) t2 \<noteq> []"
      by blast
    from ends_Seq_D [OF e2] have "ends (Grp 1 ?mark) t2 \<noteq> []"
      by (auto dest: member_nonempty)
    then have "chapter_marker_at t2" by (simp only: mark)
    moreover from t1 t2 t have "suffix t2 s"
      by (meson ends_suffix suffix_order.trans)
    ultimately show "has_chapter_marker s" unfolding has_chapter_marker_iff by blast
  }
  {
    assume "has_chapter_marker s"
    then obtain t where t: "suffix t s" and m: "chapter_marker_at t"
      unfolding has_chapter_marker_iff by blast
    from m have "ends (Grp 1 ?mark) t \<noteq> []" by (simp only: mark)
    then obtain t3 where "t3 \<in> set (ends (Grp 1 ?mark) t)" by (meson last_in_set)
    from ends_Seq_I [OF this chuong_tail [of t3]]
    have e2: "ends (Seq (Grp 1 ?mark) ?tail) t \<noteq> []" .
    have self: "t \<in> set (ends (many0 c) t)" for c
      by (simp add: ends_Rep rep_ends_self)
    from self e2 have "ends (Seq (many0 CSpace) (Seq (Grp 1 ?mark) ?tail)) t \<noteq> []"
      by (rule ends_Seq_I)
    with self have "ends chuong_regex t \<noteq> []"
      unfolding chuong_regex_unfold by (rule ends_Seq_I)
    with t show "findall chuong_regex 5 s \<noteq> []" unfolding findall_found by blast
  }
qed

lemma muc_regex_unfold:
  "muc_regex =
     Seq (many0 newline) (Seq (many0 CSpace)
       (Seq (Grp 1 (Seq (Lit kw_muc) (Seq (many0 CSpace) (many1 digit))))
         (Seq (Grp 2 (few1 CAny))
           (Look (Alt (Grp 3 (Seq (many1 newline) (Seq (many0 CSpace)
                        (Seq (Lit kw_muc) (Seq (many0 CSpace) (many1 digit))))))
                 (Alt chuong_mark EndZ))))))"
  unfolding muc_regex_def by (simp only: seqs.simps)

text \<open>
  The section matcher finds a match exactly when the text holds a section marker that
  at least one more character follows.
\<close>

lemma muc_found_iff: "findall muc_regex 5 s \<noteq> [] \<longleftrightarrow> has_section_start s"
proof
  let ?look = "Look (Alt (Grp 3 (Seq (many1 newline) (Seq (many0 CSpace)
                        (Seq (Lit kw_muc) (Seq (many0 CSpace) (many1 digit))))))
                 (Alt chuong_mark EndZ))"
  let ?mark = "Seq (Lit kw_muc) (Seq (many0 CSpace) (many1 digit))"
  let ?tail = "Seq (Grp 2 (few1 CAny)) ?look"
  have start: "section_start_at t \<longleftrightarrow> (\<exists>t3. t3 \<in> set (ends ?mark t) \<and> ends (few1 CAny) t3 \<noteq> [])" for t
    unfolding section_start_at_ends ends_Seq_nonempty in_ends_Seq by blast
  {
    assume "findall muc_regex 5 s \<noteq> []"
    then obtain t where t: "suffix t s" and e: "ends muc_regex t \<noteq> []"
      unfolding findall_found by blast
    from ends_Seq_D [OF e [unfolded muc_regex_unfold]] obtain t1
      where t1: "t1 \<in> set (ends (many0 newline) t)"
        and e1: "ends (Seq (many0 CSpace) (Seq (Grp 1 ?mark) ?tail)) t1 \<noteq> []"
      by blast
    from ends_Seq_D [OF e1] obtain t2
      where t2: "t2 \<in> set (ends (many0 CSpace) t1)"
        and e2: "ends (Seq (Grp 1 ?mark) ?tail) t2 \<noteq> []"
      by blast
    from ends_Seq_D [OF e2] obtain t3
      where t3: "t3 \<in> set (ends (Grp 1 ?mark) t2)" and e3: "ends ?tail t3 \<noteq> []"
      by blast
    from ends_Seq_D [OF e3] have "ends (Grp 2 (few1 CAny)) t3 \<noteq> []"
      by (auto dest: member_nonempty)
    with t3 have "section_start_at t2" unfolding start ends_Grp by blast
    moreover from t1 t2 t have "suffix t2 s"
      by (meson ends_suffix suffix_order.trans)
    ultimately show "has_section_start s" unfolding has_section_start_iff by blast
  }
  {
    assume "has_section_start s"
    then obtain t where t: "suffix t s" and m: "section_start_at t"
      unfolding has_section_start_iff by blast
    from m obtain t3 where t3: "t3 \<in> set (ends (Grp 1 ?mark) t)" and r: "ends (few1 CAny) t3 \<noteq> []"
      unfolding start ends_Grp by blast
    from r have "t3 \<noteq> []" by (auto simp: ends_Rep)
    then have "[] \<in> set (ends (Grp 2 (few1 CAny)) t3)"
      by (simp add: ends_Grp ends_Rep rep_ends_any_all)
    moreover have "ends ?look [] \<noteq> []"
      by (simp add: ends_Look ends_Alt ends_EndZ)
    ultimately have "ends ?tail t3 \<noteq> []" by (rule ends_Seq_I)
    with t3 have e2: "ends (Seq (Grp 1 ?mark) ?tail) t \<noteq> []" by (rule ends_Seq_I)
    have self: "t \<in> set (ends (many0 c) t)" for c
      by (simp add: ends_Rep rep_ends_self)
    from self e2 have "ends (Seq (many0 CSpace) (Seq (Grp 1 ?mark) ?tail)) t \<noteq> []"
      by (rule ends_Seq_I)
    with self have "ends muc_regex t \<noteq> []"
      unfolding muc_regex_unfold by (rule ends_Seq_I)
    with t show "findall muc_regex 5 s \<noteq> []" unfolding findall_found by blast
  }
qed

section \<open>The shape of the tree\<close>

lemma replace_star_free: "x \<notin> set (replace [x] [] s)"
proof (induction s)
  case Nil
  show ?case by (simp add: replace.simps)
next
  case (Cons c cs)
  show ?case
  proof (cases "c = x")
    case True
    then have "replace [x] [] (c # cs) = replace [x] [] cs" by (simp add: replace.simps [of "[x]"])
    with Cons show ?thesis by simp
  next
    case False
    then have "replace [x] [] (c # cs) = c # replace [x] [] cs" by (simp add: replace.simps [of "[x]"])
    with Cons False show ?thesis by simp
  qed
qed

lemma dieu_data_star_free: "article_contents (dieu_data d) = [c] \<Longrightarrow> 42 \<notin> set c"
  using set_strip [of "replace [42] [] d"] replace_star_free [of 42 d]
  by (auto simp: dieu_data_def)

lemma dieu_list_star_free:
  "c \<in> set (concat (map article_contents (map dieu_data ds))) \<Longrightarrow> 42 \<notin> set c"
  using set_strip replace_star_free [of 42] by (fastforce simp: dieu_data_def)

lemma muc_data_star_free: "c \<in> set (article_contents (muc_data muc)) \<Longrightarrow> 42 \<notin> set c"
  using dieu_list_star_free by (auto simp: muc_data_def Let_def split: prod.splits)

lemma muc_list_star_free:
  "c \<in> set (concat (map article_contents (map muc_data mucs))) \<Longrightarrow> 42 \<notin> set c"
  using muc_data_star_free by auto

lemma chuong_data_star_free: "c \<in> set (article_contents (chuong_data ch)) \<Longrightarrow> 42 \<notin> set c"
  using dieu_list_star_free muc_list_star_free
  by (auto simp: chuong_data_def Let_def split: prod.splits if_splits)

text \<open>
  C10: no article node of the tree, whatever the branch that built it (under a section
  of a chapter, under a chapter, under a top-level section, or at the top level), has an
  asterisk (code point 42) in its content.
\<close>

theorem article_contents_star_free:
  "\<forall>c \<in> set (concat (map article_contents (segment s))). 42 \<notin> set c"
proof
  fix c
  assume c: "c \<in> set (concat (map article_contents (segment s)))"
  have "segment s = map chuong_data (findall chuong_regex 5 s) \<or>
        segment s = map muc_data (findall muc_regex 5 s) \<or>
        segment s = map dieu_data (findall1 dieu_regex s)"
    by (simp add: segment_def Let_def)
  then show "42 \<notin> set c"
  proof (elim disjE)
    assume "segment s = map chuong_data (findall chuong_regex 5 s)"
    with c obtain ch where "c \<in> set (article_contents (chuong_data ch))" by auto
    then show ?thesis by (rule chuong_data_star_free)
  next
    assume "segment s = map muc_data (findall muc_regex 5 s)"
    with c show ?thesis using muc_list_star_free by simp
  next
    assume "segment s = map dieu_data (findall1 dieu_regex s)"
    with c show ?thesis using dieu_list_star_free by simp
  qed
qed

theorem article_contents_star_free_witness:
  "concat (map article_contents
     (segment (kw_chuong @ ascii '' I'' @ 10 # ascii ''Quy '' @ 273 # 7883 # ascii ''nh chung'' @ 10 # kw_dieu @ ascii '' 1. N'' @ 7897 # ascii ''i dung m'' @ 7897 # ascii ''t.'' @ 10 # kw_dieu @ ascii '' 2. N'' @ 7897 # ascii ''i dung hai.''))) =
     [(kw_dieu @ ascii '' 1. N'' @ 7897 # ascii ''i dung m'' @ 7897 # ascii ''t.''), (kw_dieu @ ascii '' 2. N'' @ 7897 # ascii ''i dung hai.'')] \<and>
   (42::uchar) \<notin> set (kw_dieu @ ascii '' 1. N'' @ 7897 # ascii ''i dung m'' @ 7897 # ascii ''t.'') \<and> (42::uchar) \<notin> set (kw_dieu @ ascii '' 2. N'' @ 7897 # ascii ''i dung hai.'')"
  using article_contents_star_free
    [of "(kw_chuong @ ascii '' I'' @ 10 # ascii ''Quy '' @ 273 # 7883 # ascii ''nh chung'' @ 10 # kw_dieu @ ascii '' 1. N'' @ 7897 # ascii ''i dung m'' @ 7897 # ascii ''t.'' @ 10 # kw_dieu @ ascii '' 2. N'' @ 7897 # ascii ''i dung hai.'')"]
  unfolding segment_on_chapter_text by simp

lemma node_type_dieu_data: "node_type (dieu_data d) = ARTICLE"
  by (simp add: dieu_data_def)

lemma node_type_muc_data: "node_type (muc_data muc) = SECTION"
  by (simp add: muc_data_def Let_def split: prod.splits)

lemma node_type_chuong_data: "node_type (chuong_data ch) = CHAPTER"
  by (simp add: chuong_data_def Let_def split: prod.splits)



















lemma findall_chuong_flat: "findall chuong_regex 5 (kw_dieu @ ascii '' 1. x'' @ 10 # kw_muc @ ascii '' 1'') = []"
  by (simp add: eval_defs)

lemma marker_flat: "has_marker kw_muc (kw_dieu @ ascii '' 1. x'' @ 10 # kw_muc @ ascii '' 1'')"
  by (simp add: has_marker_def marker_at_def eval_defs)

lemma segment_flat: "segment (kw_dieu @ ascii '' 1. x'' @ 10 # kw_muc @ ascii '' 1'') = [Leaf ARTICLE (kw_dieu @ ascii '' 1. x'' @ 10 # kw_muc @ ascii '' 1'')]"
  by (simp add: eval_defs)

text \<open>
  C5, as stated, fails in its general part: the text "Dieu 1. x", newline, "Muc 1" holds
  no chapter marker and holds a section marker, but nothing follows that marker, so the
  section matcher finds no section and the top-level node is an article node.
\<close>

theorem section_marker_undetected:
  "findall chuong_regex 5 (kw_dieu @ ascii '' 1. x'' @ 10 # kw_muc @ ascii '' 1'') = [] \<and>
   \<not> has_chapter_marker (kw_dieu @ ascii '' 1. x'' @ 10 # kw_muc @ ascii '' 1'') \<and>
   has_marker kw_muc (kw_dieu @ ascii '' 1. x'' @ 10 # kw_muc @ ascii '' 1'') \<and>
   segment (kw_dieu @ ascii '' 1. x'' @ 10 # kw_muc @ ascii '' 1'') = [Leaf ARTICLE (kw_dieu @ ascii '' 1. x'' @ 10 # kw_muc @ ascii '' 1'')] \<and>
   \<not> list_all (\<lambda>n. node_type n = SECTION) (segment (kw_dieu @ ascii '' 1. x'' @ 10 # kw_muc @ ascii '' 1''))"
proof -
  have "\<not> has_chapter_marker (kw_dieu @ ascii '' 1. x'' @ 10 # kw_muc @ ascii '' 1'')"
    unfolding chuong_found_iff [symmetric] findall_chuong_flat by simp
  moreover have "\<not> list_all (\<lambda>n. node_type n = SECTION) (segment (kw_dieu @ ascii '' 1. x'' @ 10 # kw_muc @ ascii '' 1''))"
    unfolding segment_flat by simp
  ultimately show ?thesis
    using findall_chuong_flat marker_flat segment_flat by (intro conjI)
qed

text \<open>
  C5, amended: when the chapter matcher finds no chapter, every top-level node is a
  section or an article node, never a chapter node. More generally the top-level nodes
  are one per match of the highest level detected, and of that kind: chapters if the
  text holds a chapter marker, else sections if it holds a section marker that at least
  one more character follows, else articles. A level is detected (its matcher finds a
  match) exactly when the text holds such a marker; a section marker with nothing after
  it is not detected.
\<close>

theorem top_level_kind:
  "(findall chuong_regex 5 s = [] \<longrightarrow>
      list_all (\<lambda>n. node_type n = SECTION \<or> node_type n = ARTICLE) (segment s)) \<and>
   (has_chapter_marker s \<longrightarrow>
      list_all (\<lambda>n. node_type n = CHAPTER) (segment s) \<and>
      length (segment s) = length (findall chuong_regex 5 s)) \<and>
   (\<not> has_chapter_marker s \<and> has_section_start s \<longrightarrow>
      list_all (\<lambda>n. node_type n = SECTION) (segment s) \<and>
      length (segment s) = length (findall muc_regex 5 s)) \<and>
   (\<not> has_chapter_marker s \<and> \<not> has_section_start s \<longrightarrow>
      list_all (\<lambda>n. node_type n = ARTICLE) (segment s) \<and>
      length (segment s) = length (findall1 dieu_regex s)) \<and>
   (findall chuong_regex 5 s \<noteq> [] \<longleftrightarrow> has_chapter_marker s) \<and>
   (findall muc_regex 5 s \<noteq> [] \<longleftrightarrow> has_section_start s)"
  unfolding chuong_found_iff [symmetric] muc_found_iff [symmetric]
  by (simp add: segment_def Let_def list_all_iff node_type_dieu_data node_type_muc_data
      node_type_chuong_data)

lemma findall_chuong_A: "findall chuong_regex 5 (kw_chuong @ ascii '' I'' @ 10 # ascii ''A'') = [[(kw_chuong @ ascii '' I''), (ascii ''I''), (ascii ''A''), [], []]]"
  by (simp add: eval_defs)

lemma findall_chuong_B: "findall chuong_regex 5 (kw_muc @ ascii '' 1'' @ 10 # ascii ''S'') = []"
  by (simp add: eval_defs)

lemma findall_muc_B: "findall muc_regex 5 (kw_muc @ ascii '' 1'' @ 10 # ascii ''S'') = [[(kw_muc @ ascii '' 1''), (10 # ascii ''S''), [], [], []]]"
  by (simp add: eval_defs)

lemma findall_chuong_C: "findall chuong_regex 5 (kw_dieu @ ascii '' 5. S.'') = []"
  by (simp add: eval_defs)

lemma findall_muc_C: "findall muc_regex 5 (kw_dieu @ ascii '' 5. S.'') = []"
  by (simp add: eval_defs)

lemma findall_dieu_C: "findall1 dieu_regex (kw_dieu @ ascii '' 5. S.'') = [(kw_dieu @ ascii '' 5. S.'')]"
  by (simp add: eval_defs)

theorem top_level_kind_witness:
  "has_chapter_marker (kw_chuong @ ascii '' I'' @ 10 # ascii ''A'') \<and>
   list_all (\<lambda>n. node_type n = CHAPTER) (segment (kw_chuong @ ascii '' I'' @ 10 # ascii ''A'')) \<and>
   length (segment (kw_chuong @ ascii '' I'' @ 10 # ascii ''A'')) = 1 \<and>
   \<not> has_chapter_marker (kw_muc @ ascii '' 1'' @ 10 # ascii ''S'') \<and> has_section_start (kw_muc @ ascii '' 1'' @ 10 # ascii ''S'') \<and>
   list_all (\<lambda>n. node_type n = SECTION) (segment (kw_muc @ ascii '' 1'' @ 10 # ascii ''S'')) \<and>
   length (segment (kw_muc @ ascii '' 1'' @ 10 # ascii ''S'')) = 1 \<and>
   \<not> has_chapter_marker (kw_dieu @ ascii '' 5. S.'') \<and> \<not> has_section_start (kw_dieu @ ascii '' 5. S.'') \<and>
   list_all (\<lambda>n. node_type n = ARTICLE) (segment (kw_dieu @ ascii '' 5. S.'')) \<and>
   length (segment (kw_dieu @ ascii '' 5. S.'')) = 1"
proof -
  have a: "has_chapter_marker (kw_chuong @ ascii '' I'' @ 10 # ascii ''A'')"
    unfolding chuong_found_iff [symmetric] by (simp add: findall_chuong_A)
  have b: "\<not> has_chapter_marker (kw_muc @ ascii '' 1'' @ 10 # ascii ''S'')" "has_section_start (kw_muc @ ascii '' 1'' @ 10 # ascii ''S'')"
    unfolding chuong_found_iff [symmetric] muc_found_iff [symmetric]
    by (simp_all add: findall_chuong_B findall_muc_B)
  have c: "\<not> has_chapter_marker (kw_dieu @ ascii '' 5. S.'')" "\<not> has_section_start (kw_dieu @ ascii '' 5. S.'')"
    unfolding chuong_found_iff [symmetric] muc_found_iff [symmetric]
    by (simp_all add: findall_chuong_C findall_muc_C)
  from top_level_kind [of "(kw_chuong @ ascii '' I'' @ 10 # ascii ''A'')"] top_level_kind [of "(kw_muc @ ascii '' 1'' @ 10 # ascii ''S'')"]
    top_level_kind [of "(kw_dieu @ ascii '' 5. S.'')"] a b c
  show ?thesis by (simp add: findall_chuong_A findall_muc_B findall_dieu_C)
qed

end
